theory Spec2Isabelle
  imports Main "HOL-Library.Word" "HOL-Library.Sublist" "HOL-Library.Multiset"
begin

unbundle bit_operations_syntax

section \<open>utils/dynstream/interfaces.go\<close>

text \<open>
  Go's \<open>int\<close> is 64 bits wide on the platforms the package accepts (\<open>NewDynamicStream\<close>
  checks it), and \<open>time.Duration\<close> is an \<open>int64\<close> count of nanoseconds. Both are 64-bit
  words here; Go's signed comparisons read them through \<open>sint\<close>.
\<close>

type_synonym go_int = "64 word"
type_synonym Duration = "64 word"

definition Millisecond :: Duration where
  "Millisecond = 1000000"

definition Second :: Duration where
  "Second = 1000 * Millisecond"

subsection \<open>EventType and Property\<close>

text \<open>\<open>type Property int\<close> with the constants numbered by \<open>iota\<close>.\<close>

type_synonym Property = go_int

definition BatchableData :: Property where
  "BatchableData = 0"

definition PeriodicSignal :: Property where
  "PeriodicSignal = 1"

definition NonBatchable :: Property where
  "NonBatchable = 2"

record EventType =
  DataGroup :: go_int
  Property :: Property

text \<open>\<open>var DefaultEventType = EventType{}\<close>: the composite literal with no field sets
  every field to the zero value of its type, which is 0 for both integer types.\<close>

definition DefaultEventType :: EventType where
  "DefaultEventType = \<lparr>DataGroup = 0, Property = 0\<rparr>"

subsection \<open>Option\<close>

definition DefaultSchedulerInterval :: Duration where
  "DefaultSchedulerInterval = 1 * Second"

definition DefaultReportInterval :: Duration where
  "DefaultReportInterval = 500 * Millisecond"

definition DefaultMaxPendingSize :: go_int where
  "DefaultMaxPendingSize = 128 * push_bit 20 1"

definition DefaultFeedbackInterval :: Duration where
  "DefaultFeedbackInterval = 1000 * Millisecond"

text \<open>\<open>handleWait\<close> is a pointer to a wait group: \<open>None\<close> is the nil pointer, \<open>Some a\<close>
  the wait group at address \<open>a\<close>.\<close>

record Option =
  SchedulerInterval :: Duration
  ReportInterval :: Duration
  StreamCount :: go_int
  BatchCount :: go_int
  EnableMemoryControl :: bool
  handleWait :: "nat option"

text \<open>The literal of \<open>NewOption\<close> names four fields; the two it leaves out get their
  zero values, \<open>false\<close> and the nil pointer.\<close>

definition NewOption :: Option where
  "NewOption = \<lparr>SchedulerInterval = DefaultSchedulerInterval,
                 ReportInterval = DefaultReportInterval,
                 StreamCount = 0,
                 BatchCount = 1,
                 EnableMemoryControl = False,
                 handleWait = None\<rparr>"

text \<open>\<open>func (o *Option) fix()\<close>. \<open>runtime.NumCPU()\<close> is a value of the host, taken as the
  parameter \<open>NumCPU\<close>. The receiver is updated in place; the model returns it.\<close>

definition Option_fix :: "go_int \<Rightarrow> Option \<Rightarrow> Option" where
  "Option_fix NumCPU o1 =
     (let o2 = (if StreamCount o1 = 0 then o1\<lparr>StreamCount := NumCPU\<rparr> else o1);
          o3 = (if sint (BatchCount o2) \<le> 0 then o2\<lparr>BatchCount := 1\<rparr> else o2)
      in o3)"

subsection \<open>AreaSettings\<close>

record AreaSettings =
  MaxPendingSize :: go_int
  FeedbackInterval :: Duration

definition AreaSettings_fix :: "AreaSettings \<Rightarrow> AreaSettings" where
  "AreaSettings_fix s1 =
     (let s2 = (if sint (MaxPendingSize s1) \<le> 0
                then s1\<lparr>MaxPendingSize := DefaultMaxPendingSize\<rparr> else s1);
          s3 = (if FeedbackInterval s2 = 0
                then s2\<lparr>FeedbackInterval := DefaultFeedbackInterval\<rparr> else s2)
      in s3)"

definition NewAreaSettings :: AreaSettings where
  "NewAreaSettings = \<lparr>MaxPendingSize = DefaultMaxPendingSize,
                       FeedbackInterval = DefaultFeedbackInterval\<rparr>"

subsection \<open>Handler and Feedback\<close>

text \<open>
  The callbacks of \<open>Handler\<close> that read an event or a path. \<open>Handle\<close> and \<open>OnDrop\<close>
  act on the host: the stream's state keeps the log of their calls, and what \<open>Handle\<close>
  returns comes with the step that calls it.
\<close>

record ('a, 'p, 'e, 'd) Handler =
  Path :: "'e \<Rightarrow> 'p"
  GetSize :: "'e \<Rightarrow> go_int"
  IsPaused :: "'e \<Rightarrow> bool"
  GetArea :: "'p \<Rightarrow> 'd \<Rightarrow> 'a"
  GetTimestamp :: "'e \<Rightarrow> 64 word"
  GetType :: "'e \<Rightarrow> EventType"

record ('a, 'p, 'd) Feedback =
  Feedback_Area :: 'a
  Feedback_Path :: 'p
  Feedback_Dest :: 'd
  Feedback_Pause :: bool

subsection \<open>NewDynamicStream\<close>

text \<open>
  \<open>unsafe.Sizeof(int(0))\<close> is a constant of the platform, the parameter \<open>sizeof_int\<close>.
  The panic is the \<open>Inl\<close> result, carrying the panic's message. \<open>newDynamicStreamImpl\<close>
  is defined in a file of the package that is not at hand: it is a parameter, the
  constructor that receives the handler and the chosen option. The variadic \<open>option\<close>
  is a list.
\<close>

definition NewDynamicStream ::
  "nat \<Rightarrow> ('h \<Rightarrow> Option \<Rightarrow> 's) \<Rightarrow> 'h \<Rightarrow> Option list \<Rightarrow> string + 's" where
  "NewDynamicStream sizeof_int newDynamicStreamImpl handler option =
     (if sizeof_int \<noteq> 8 then Inl ''int is not int64''
      else
        let opt = NewOption;
            opt = (if length option > 0 then option ! 0 else opt)
        in Inr (newDynamicStreamImpl handler opt))"

section \<open>downstreamadapter/sink/conflictdetector/helper.go\<close>

type_synonym byte = "8 word"

text \<open>
  A Go string is a sequence of bytes, and \<open>[]byte(val)\<close> is that sequence. A slice that
  can be nil is an \<open>option\<close>: \<open>None\<close> is the nil slice, of length 0.
\<close>

datatype panic = IndexOutOfRange | LogPanic string

text \<open>
  \<open>common.Column\<close>, with the four fields the key generation reads. \<open>Value\<close> is an
  interface value, \<open>None\<close> when nil. The flag type and its method
  \<open>IsGeneratedColumn\<close> come from the package \<open>common\<close>, which is not at hand.
\<close>

record ('v, 'f) Column =
  Value :: "'v option"
  Flag :: 'f
  Type :: byte
  Collation :: string

record TableInfo =
  IndexColumnsOffset :: "int list list"

text \<open>\<open>common.RowChangedEvent\<close>, with the fields that \<open>genRowKeys\<close> reads. The slices
  hold pointers to columns, \<open>None\<close> for a nil pointer, which \<open>genKeyList\<close> tests for. The
  event, its rows and their \<open>TableInfo\<close> are pointers that the code dereferences without
  a test: they are taken as allocated.\<close>

record ('v, 'f) RowChangedEvent =
  TableInfo :: TableInfo
  Columns :: "('v, 'f) Column option list"
  PreColumns :: "('v, 'f) Column option list"

record ('v, 'f) TxnEvent =
  Rows :: "('v, 'f) RowChangedEvent list"

text \<open>
  What \<open>helper.go\<close> calls in other packages: \<open>model.ColumnValueString\<close>,
  \<open>strings.ToLower\<close>, the flag's \<open>IsGeneratedColumn\<close> and the three accessors of the row.
  \<open>GetTableID\<close> returns an \<open>int64\<close>, which \<open>uint64(...)\<close> reads with the same 64 bits.
\<close>

record ('v, 'f) helper_env =
  ColumnValueString :: "'v \<Rightarrow> byte list"
  ToLower :: "byte list \<Rightarrow> byte list"
  IsGeneratedColumn :: "'f \<Rightarrow> bool"
  GetColumns :: "('v, 'f) RowChangedEvent \<Rightarrow> ('v, 'f) Column option list"
  GetPreColumns :: "('v, 'f) RowChangedEvent \<Rightarrow> ('v, 'f) Column option list"
  GetTableID :: "('v, 'f) RowChangedEvent \<Rightarrow> 64 word"

subsection \<open>The column types of package mysql\<close>

text \<open>The type codes of the MySQL protocol that \<open>columnNeeds2LowerCase\<close> names, with the
  values package \<open>mysql\<close> gives them.\<close>

definition TypeVarchar :: byte where "TypeVarchar = 15"
definition TypeTinyBlob :: byte where "TypeTinyBlob = 249"
definition TypeMediumBlob :: byte where "TypeMediumBlob = 250"
definition TypeLongBlob :: byte where "TypeLongBlob = 251"
definition TypeBlob :: byte where "TypeBlob = 252"
definition TypeVarString :: byte where "TypeVarString = 253"
definition TypeString :: byte where "TypeString = 254"

definition collationNeeds2LowerCase :: "string \<Rightarrow> bool" where
  "collationNeeds2LowerCase collation = suffix ''_ci'' collation"

definition columnNeeds2LowerCase :: "byte \<Rightarrow> string \<Rightarrow> bool" where
  "columnNeeds2LowerCase mysqlType collation =
     (if mysqlType \<in> {TypeVarchar, TypeString, TypeVarString, TypeTinyBlob,
                        TypeMediumBlob, TypeBlob, TypeLongBlob}
      then collationNeeds2LowerCase collation
      else False)"

subsection \<open>encoding/binary and hash/fnv\<close>

text \<open>\<open>binary.BigEndian.PutUint64\<close> into a fresh slice of 8 bytes.\<close>

definition PutUint64 :: "64 word \<Rightarrow> byte list" where
  "PutUint64 v = [ucast (drop_bit 56 v), ucast (drop_bit 48 v), ucast (drop_bit 40 v),
                  ucast (drop_bit 32 v), ucast (drop_bit 24 v), ucast (drop_bit 16 v),
                  ucast (drop_bit 8 v), ucast v]"

text \<open>The 32-bit FNV-1a hasher: its state is the running hash. \<open>Write\<close> returns the
  new state with the number of bytes written and the error, which is always nil.\<close>

definition offset32 :: "32 word" where
  "offset32 = 2166136261"

definition prime32 :: "32 word" where
  "prime32 = 16777619"

definition New32a :: "32 word" where
  "New32a = offset32"

definition hasher_Write :: "32 word \<Rightarrow> byte list \<Rightarrow> 32 word \<times> nat \<times> string option" where
  "hasher_Write s data =
     (foldl (\<lambda>hash c. (hash XOR ucast c) * prime32) s data, length data, None)"

definition Sum32 :: "32 word \<Rightarrow> 32 word" where
  "Sum32 s = s"

definition hasher_Reset :: "32 word \<Rightarrow> 32 word" where
  "hasher_Reset s = offset32"

subsection \<open>genKeyList\<close>

text \<open>
  The loop of \<open>genKeyList\<close> over \<open>colIdx\<close>, with the key built so far. \<open>Inl\<close> is the
  run-time panic of an index outside \<open>columns\<close>; \<open>Inr None\<close> is the \<open>return nil\<close> inside
  the loop; \<open>Inr (Some key)\<close> is the key when the loop has run to its end.
\<close>

fun genKeyList_loop ::
  "('v, 'f) helper_env \<Rightarrow> ('v, 'f) Column option list \<Rightarrow> int list \<Rightarrow> byte list \<Rightarrow>
   panic + byte list option" where
  "genKeyList_loop env columns [] key = Inr (Some key)"
| "genKeyList_loop env columns (i # colIdx) key =
     (if i < 0 \<or> int (length columns) \<le> i then Inl IndexOutOfRange
      else
        (case columns ! nat i of
           None \<Rightarrow> Inr None
         | Some c \<Rightarrow>
             (case Value c of
                None \<Rightarrow> Inr None
              | Some v \<Rightarrow>
                  if IsGeneratedColumn env (Flag c) then Inr None
                  else
                    let val = ColumnValueString env v;
                        val = (if columnNeeds2LowerCase (Type c) (Collation c)
                               then ToLower env val else val);
                        key = key @ val;
                        key = key @ [0]
                    in genKeyList_loop env columns colIdx key)))"

text \<open>\<open>iIdx\<close> is the index of a \<open>range\<close> loop, never negative: a natural number.\<close>

definition genKeyList ::
  "('v, 'f) helper_env \<Rightarrow> ('v, 'f) Column option list \<Rightarrow> nat \<Rightarrow> int list \<Rightarrow> 64 word \<Rightarrow>
   panic + byte list option" where
  "genKeyList env columns iIdx colIdx tableID =
     (case genKeyList_loop env columns colIdx [] of
        Inl p \<Rightarrow> Inl p
      | Inr None \<Rightarrow> Inr None
      | Inr (Some key) \<Rightarrow>
          if length key = 0 then Inr None
          else Inr (Some (key @ PutUint64 (of_nat iIdx) @ PutUint64 tableID)))"

subsection \<open>genRowKeys\<close>

text \<open>One of the two \<open>range\<close> loops over \<open>IndexColumnsOffset\<close>, on the pairs of index
  and element, appending to \<open>keys\<close>.\<close>

fun genRowKeys_loop ::
  "('v, 'f) helper_env \<Rightarrow> ('v, 'f) Column option list \<Rightarrow> 64 word \<Rightarrow> (nat \<times> int list) list \<Rightarrow>
   byte list list \<Rightarrow> panic + byte list list" where
  "genRowKeys_loop env columns tableID [] keys = Inr keys"
| "genRowKeys_loop env columns tableID ((iIdx, idxCol) # rest) keys =
     (case genKeyList env columns iIdx idxCol tableID of
        Inl p \<Rightarrow> Inl p
      | Inr None \<Rightarrow> genRowKeys_loop env columns tableID rest keys
      | Inr (Some key) \<Rightarrow>
          if length key = 0 then genRowKeys_loop env columns tableID rest keys
          else genRowKeys_loop env columns tableID rest (keys @ [key]))"

definition genRowKeys ::
  "('v, 'f) helper_env \<Rightarrow> ('v, 'f) RowChangedEvent \<Rightarrow> panic + byte list list" where
  "genRowKeys env row =
     (case (if length (Columns row) \<noteq> 0
            then genRowKeys_loop env (GetColumns env row) (GetTableID env row)
                   (enumerate 0 (IndexColumnsOffset (TableInfo row))) []
            else Inr []) of
        Inl p \<Rightarrow> Inl p
      | Inr keys \<Rightarrow>
          (case (if length (PreColumns row) \<noteq> 0
                 then genRowKeys_loop env (GetPreColumns env row) (GetTableID env row)
                        (enumerate 0 (IndexColumnsOffset (TableInfo row))) keys
                 else Inr keys) of
             Inl p \<Rightarrow> Inl p
           | Inr keys \<Rightarrow>
               if length keys = 0 then Inr [PutUint64 (GetTableID env row)]
               else Inr keys))"

subsection \<open>ConflictKeys\<close>

text \<open>
  \<open>hashRes\<close> is a map used as a set of hashes: it is the list of its keys, each once, a
  store of a key that is present changing nothing. Go leaves the order in which \<open>range\<close>
  visits a map open; the list has the keys in the order of their first store, one of
  the orders Go may take.
\<close>

definition map_store :: "'k list \<Rightarrow> 'k \<Rightarrow> 'k list" where
  "map_store m k = (if k \<in> set m then m else m @ [k])"

text \<open>The inner loop over the keys of one row, with the hasher and the map.\<close>

fun ConflictKeys_keys ::
  "byte list list \<Rightarrow> 32 word \<times> 64 word list \<Rightarrow> panic + 32 word \<times> 64 word list" where
  "ConflictKeys_keys [] (hasher, hashRes) = Inr (hasher, hashRes)"
| "ConflictKeys_keys (key # keys) (hasher, hashRes) =
     (case hasher_Write hasher key of
        (hasher, n, err) \<Rightarrow>
          if n \<noteq> length key \<or> err \<noteq> None then Inl (LogPanic ''transaction key hash fail'')
          else
            let hashRes = map_store hashRes (ucast (Sum32 hasher));
                hasher = hasher_Reset hasher
            in ConflictKeys_keys keys (hasher, hashRes))"

text \<open>The outer loop over the rows.\<close>

fun ConflictKeys_rows ::
  "('v, 'f) helper_env \<Rightarrow> ('v, 'f) RowChangedEvent list \<Rightarrow> 32 word \<times> 64 word list \<Rightarrow>
   panic + 32 word \<times> 64 word list" where
  "ConflictKeys_rows env [] st = Inr st"
| "ConflictKeys_rows env (row # rows) st =
     (case genRowKeys env row of
        Inl p \<Rightarrow> Inl p
      | Inr keys \<Rightarrow>
          (case ConflictKeys_keys keys st of
             Inl p \<Rightarrow> Inl p
           | Inr st \<Rightarrow> ConflictKeys_rows env rows st))"

definition ConflictKeys ::
  "('v, 'f) helper_env \<Rightarrow> ('v, 'f) TxnEvent \<Rightarrow> panic + 64 word list option" where
  "ConflictKeys env event =
     (if length (Rows event) = 0 then Inr None
      else
        (case ConflictKeys_rows env (Rows event) (New32a, []) of
           Inl p \<Rightarrow> Inl p
         | Inr (hasher, hashRes) \<Rightarrow> Inr (Some hashRes)))"

text \<open>The offsets of every index lie inside the column slice that is read with them:
  the condition under which no index expression of \<open>genKeyList\<close> panics.\<close>

definition offsets_in_range :: "'c list \<Rightarrow> int list list \<Rightarrow> bool" where
  "offsets_in_range columns offsets =
     list_all (list_all (\<lambda>i. 0 \<le> i \<and> i < int (length columns))) offsets"

definition row_offsets_in_range ::
  "('v, 'f) helper_env \<Rightarrow> ('v, 'f) RowChangedEvent \<Rightarrow> bool" where
  "row_offsets_in_range env row =
     ((length (Columns row) = 0 \<or>
         offsets_in_range (GetColumns env row) (IndexColumnsOffset (TableInfo row))) \<and>
      (length (PreColumns row) = 0 \<or>
         offsets_in_range (GetPreColumns env row) (IndexColumnsOffset (TableInfo row))))"

text \<open>A column that lets its index give a key: present, with a value, not generated.\<close>

definition usable_column :: "('v, 'f) helper_env \<Rightarrow> ('v, 'f) Column option \<Rightarrow> bool" where
  "usable_column env c =
     (case c of None \<Rightarrow> False
      | Some c \<Rightarrow> Value c \<noteq> None \<and> \<not> IsGeneratedColumn env (Flag c))"

text \<open>An index gives a key when it has a column and each of its columns is usable.\<close>

definition index_gives_key ::
  "('v, 'f) helper_env \<Rightarrow> ('v, 'f) Column option list \<Rightarrow> int list \<Rightarrow> bool" where
  "index_gives_key env columns colIdx =
     (colIdx \<noteq> [] \<and> list_all (\<lambda>i. usable_column env (columns ! nat i)) colIdx)"

text \<open>The keys that the indexes of \<open>offsets\<close> give on \<open>columns\<close>, in the order of the indexes.\<close>

definition index_keys ::
  "('v, 'f) helper_env \<Rightarrow> ('v, 'f) Column option list \<Rightarrow> 64 word \<Rightarrow> (nat \<times> int list) list \<Rightarrow>
   byte list list" where
  "index_keys env columns tableID offsets =
     concat (map (\<lambda>(iIdx, idxCol).
                    case genKeyList env columns iIdx idxCol tableID of
                      Inr (Some key) \<Rightarrow> [key]
                    | _ \<Rightarrow> [])
                 offsets)"

text \<open>The keys that the indexes give on the columns of a row, then on its previous columns.\<close>

definition row_index_keys ::
  "('v, 'f) helper_env \<Rightarrow> ('v, 'f) RowChangedEvent \<Rightarrow> byte list list" where
  "row_index_keys env row =
     (if length (Columns row) \<noteq> 0
      then index_keys env (GetColumns env row) (GetTableID env row)
             (enumerate 0 (IndexColumnsOffset (TableInfo row)))
      else []) @
     (if length (PreColumns row) \<noteq> 0
      then index_keys env (GetPreColumns env row) (GetTableID env row)
             (enumerate 0 (IndexColumnsOffset (TableInfo row)))
      else [])"

text \<open>The hash of one key: the 32-bit FNV-1a sum of its bytes from a fresh hasher, widened to 64 bits.\<close>

definition hash_key :: "byte list \<Rightarrow> 64 word" where
  "hash_key key = ucast (Sum32 (fst (hasher_Write New32a key)))"

text \<open>The keys of all the rows of an event.\<close>

definition all_row_keys ::
  "('v, 'f) helper_env \<Rightarrow> ('v, 'f) RowChangedEvent list \<Rightarrow> byte list list" where
  "all_row_keys env rows =
     concat (map (\<lambda>row. case genRowKeys env row of Inr keys \<Rightarrow> keys | Inl p \<Rightarrow> []) rows)"

text \<open>\<open>binary.BigEndian.Uint64\<close>, the decoding that \<open>PutUint64\<close> is read back with.\<close>

definition Uint64 :: "byte list \<Rightarrow> 64 word" where
  "Uint64 b = (ucast (b ! 7) OR push_bit 8 (ucast (b ! 6)) OR push_bit 16 (ucast (b ! 5)) OR
               push_bit 24 (ucast (b ! 4)) OR push_bit 32 (ucast (b ! 3)) OR
               push_bit 40 (ucast (b ! 2)) OR push_bit 48 (ucast (b ! 1)) OR
               push_bit 56 (ucast (b ! 0)))"

section \<open>coordinator/operator/operator_add.go\<close>

text \<open>
  The operator holds two atomic flags; each method call loads and stores them one at a
  time, so a history of calls is modelled as the sequence of the calls, each applied to
  the operator's state. The changefeed, the changefeed database, the target message and
  the protobuf status live in packages that are not at hand: their types are type
  parameters, and the three functions of theirs that the operator calls, with the enum
  constant \<open>heartbeatpb.ComponentState_Working\<close>, are the fields of \<open>operator_env\<close>.
  \<open>node.ID\<close> is a string. No method stores \<open>false\<close> in a flag, so the order in which
  concurrent calls take effect is one of the sequences. The pointers to the changefeed,
  the database and the status are taken as allocated.
\<close>

type_synonym node_ID = string

record MaintainerStatus =
  State :: "32 word"

record ('cf, 'db) AddMaintainerOperator =
  cf :: 'cf
  dest :: node_ID
  finished :: bool
  removed :: bool
  db :: 'db

record ('cf, 'db, 'msg) operator_env =
  ComponentState_Working :: "32 word"
  NewAddMaintainerMessage :: "'cf \<Rightarrow> node_ID \<Rightarrow> 'msg"
  BindChangefeedToNode :: "'db \<Rightarrow> node_ID \<Rightarrow> node_ID \<Rightarrow> 'cf \<Rightarrow> 'db"
  MarkMaintainerReplicating :: "'db \<Rightarrow> 'cf \<Rightarrow> 'db"

definition NewAddMaintainerOperator ::
  "'db \<Rightarrow> 'cf \<Rightarrow> node_ID \<Rightarrow> ('cf, 'db) AddMaintainerOperator" where
  "NewAddMaintainerOperator db0 cf0 dest0 =
     \<lparr>cf = cf0, dest = dest0, finished = False, removed = False, db = db0\<rparr>"

text \<open>\<open>Check\<close>: the status is read only when the first two conjuncts hold.\<close>

definition Check ::
  "('cf, 'db, 'msg) operator_env \<Rightarrow> ('cf, 'db) AddMaintainerOperator \<Rightarrow> node_ID \<Rightarrow>
   MaintainerStatus \<Rightarrow> ('cf, 'db) AddMaintainerOperator" where
  "Check env m from status =
     (if \<not> finished m \<and> from = dest m \<and> State status = ComponentState_Working env
      then m\<lparr>finished := True\<rparr>
      else m)"

text \<open>\<open>Schedule\<close> returns a pointer to a message: \<open>None\<close> is nil.\<close>

definition Schedule ::
  "('cf, 'db, 'msg) operator_env \<Rightarrow> ('cf, 'db) AddMaintainerOperator \<Rightarrow> 'msg option" where
  "Schedule env m =
     (if finished m \<or> removed m then None
      else Some (NewAddMaintainerMessage env (cf m) (dest m)))"

definition OnNodeRemove ::
  "('cf, 'db) AddMaintainerOperator \<Rightarrow> node_ID \<Rightarrow> ('cf, 'db) AddMaintainerOperator" where
  "OnNodeRemove m n =
     (if n = dest m then m\<lparr>finished := True, removed := True\<rparr> else m)"

definition IsFinished :: "('cf, 'db) AddMaintainerOperator \<Rightarrow> bool" where
  "IsFinished m = finished m"

definition OnTaskRemoved ::
  "('cf, 'db) AddMaintainerOperator \<Rightarrow> ('cf, 'db) AddMaintainerOperator" where
  "OnTaskRemoved m = m\<lparr>finished := True, removed := True\<rparr>"

definition Start ::
  "('cf, 'db, 'msg) operator_env \<Rightarrow> ('cf, 'db) AddMaintainerOperator \<Rightarrow>
   ('cf, 'db) AddMaintainerOperator" where
  "Start env m = m\<lparr>db := BindChangefeedToNode env (db m) '''' (dest m) (cf m)\<rparr>"

definition PostFinish ::
  "('cf, 'db, 'msg) operator_env \<Rightarrow> ('cf, 'db) AddMaintainerOperator \<Rightarrow>
   ('cf, 'db) AddMaintainerOperator" where
  "PostFinish env m =
     (if \<not> removed m then m\<lparr>db := MarkMaintainerReplicating env (db m) (cf m)\<rparr> else m)"

text \<open>The calls a client of the operator can make. \<open>ID\<close>, \<open>IsFinished\<close>, \<open>Schedule\<close>,
  \<open>String\<close> and \<open>Type\<close> only read the operator.\<close>

datatype operator_call =
    Call_Check node_ID MaintainerStatus
  | Call_Schedule
  | Call_OnNodeRemove node_ID
  | Call_ID
  | Call_IsFinished
  | Call_OnTaskRemoved
  | Call_Start
  | Call_PostFinish
  | Call_String
  | Call_Type

fun operator_step ::
  "('cf, 'db, 'msg) operator_env \<Rightarrow> ('cf, 'db) AddMaintainerOperator \<Rightarrow> operator_call \<Rightarrow>
   ('cf, 'db) AddMaintainerOperator" where
  "operator_step env m (Call_Check from status) = Check env m from status"
| "operator_step env m Call_Schedule = m"
| "operator_step env m (Call_OnNodeRemove n) = OnNodeRemove m n"
| "operator_step env m Call_ID = m"
| "operator_step env m Call_IsFinished = m"
| "operator_step env m Call_OnTaskRemoved = OnTaskRemoved m"
| "operator_step env m Call_Start = Start env m"
| "operator_step env m Call_PostFinish = PostFinish env m"
| "operator_step env m Call_String = m"
| "operator_step env m Call_Type = m"

fun operator_run ::
  "('cf, 'db, 'msg) operator_env \<Rightarrow> ('cf, 'db) AddMaintainerOperator \<Rightarrow> operator_call list \<Rightarrow>
   ('cf, 'db) AddMaintainerOperator" where
  "operator_run env m [] = m"
| "operator_run env m (c # cs) = operator_run env (operator_step env m c) cs"

text \<open>The three calls of the claim: a node removal naming the operator's destination,
  a task removal, and a check from the destination that reports the working state.\<close>

fun finishing_call ::
  "('cf, 'db, 'msg) operator_env \<Rightarrow> ('cf, 'db) AddMaintainerOperator \<Rightarrow> operator_call \<Rightarrow> bool" where
  "finishing_call env m (Call_OnNodeRemove n) = (n = dest m)"
| "finishing_call env m Call_OnTaskRemoved = True"
| "finishing_call env m (Call_Check from status) =
     (from = dest m \<and> State status = ComponentState_Working env)"
| "finishing_call env m _ = False"

section \<open>The dynamic stream behind the interface\<close>

text \<open>
  Modelled from the spec: the stream that \<open>newDynamicStreamImpl\<close> builds is defined in
  files of the package that are not at hand. Its state and its operations follow
  sections 3 to 7 of the specification. One step of the model is one call of the
  interface, one event taken from the ingress channel, one wake token, one call of
  \<open>Handle\<close> by a worker with its outcome, one reassignment by the scheduler or one
  transition of the
  memory controller; an execution is a sequence of steps in any order, which covers
  every interleaving of the workers, whose calls of \<open>Handle\<close> for one path never
  overlap. Which worker, which path and which transition comes next is chosen by the
  sequence, so that every selection and fairness rule is one of the executions; report
  intervals, feedback intervals and the last-handled time stamps are not part of the
  state. A call of \<open>Handle\<close> returns or panics; the worker contains the panic and the
  stream goes on (section 7).

  Every event taken from the ingress channel gets the next number of the stream, so
  that two sends of the same value remain two events.
\<close>

type_synonym 'e entry = "nat \<times> 'e"

text \<open>Modelled from the spec: the path of section 3, with its queue, its pending bytes, the
  pause, pending-pause and await flags, the owning worker and the pause state last
  reported by the upstream.\<close>

record ('a, 'e, 'd) PathState =
  path_area :: 'a
  path_dest :: 'd
  queue :: "'e entry list"
  pending_bytes :: int
  paused :: bool
  pending_pause :: bool
  awaiting :: bool
  owner_worker :: nat
  upstream_paused :: bool

text \<open>Modelled from the spec: how a call of \<open>Handle\<close> ends. It returns its \<open>await\<close>
  flag (section 4.3), or it panics and the worker catches the panic (section 7).\<close>

datatype Handle_result = Returns bool | Panics

text \<open>Modelled from the spec: the stream's state. Besides the paths and the accounting of
  the areas it keeps the history that the properties speak of: the events taken from
  the ingress channel in order, the numbers of the dropped ones, the calls of \<open>OnDrop\<close>
  and of \<open>Handle\<close> (the path, its destination, the batch passed and how the call
  ended), and the feedback records sent.\<close>

record ('a, 'p, 'e, 'd) DynStream =
  stream_option :: Option
  started :: bool
  closed :: bool
  paths :: "'p \<Rightarrow> ('a, 'e, 'd) PathState option"
  total_pending_bytes :: "'a \<Rightarrow> int"
  area_paths :: "'a \<Rightarrow> nat"
  area_settings :: "'a \<Rightarrow> AreaSettings"
  next_id :: nat
  admitted :: "'e entry list"
  dropped :: "nat set"
  OnDrop_calls :: "'e list"
  Handle_calls :: "('p \<times> 'd \<times> 'e entry list \<times> Handle_result) list"
  feedback_sent :: "('a, 'p, 'd) Feedback list"

text \<open>Modelled from the spec: the error kinds of section 7.\<close>

datatype stream_error = DuplicateError | NotExistError | ClosedError

text \<open>Modelled from the spec: \<open>newDynamicStreamImpl\<close>, the constructor behind
  \<open>NewDynamicStream\<close>: the option is fixed, there are no paths, every area has the
  default settings.\<close>

definition newDynamicStreamImpl ::
  "go_int \<Rightarrow> ('a, 'p, 'e, 'd) Handler \<Rightarrow> Option \<Rightarrow> ('a, 'p, 'e, 'd) DynStream" where
  "newDynamicStreamImpl NumCPU handler option =
     \<lparr>stream_option = Option_fix NumCPU option,
      started = False,
      closed = False,
      paths = (\<lambda>p. None),
      total_pending_bytes = (\<lambda>a. 0),
      area_paths = (\<lambda>a. 0),
      area_settings = (\<lambda>a. NewAreaSettings),
      next_id = 0,
      admitted = [],
      dropped = {},
      OnDrop_calls = [],
      Handle_calls = [],
      feedback_sent = []\<rparr>"

text \<open>Modelled from the spec: \<open>Feedback()\<close>. \<open>None\<close> is the nil channel, returned when
  memory control is disabled; otherwise the channel holds the records sent.\<close>

definition Feedback_channel ::
  "('a, 'p, 'e, 'd) DynStream \<Rightarrow> ('a, 'p, 'd) Feedback list option" where
  "Feedback_channel s =
     (if EnableMemoryControl (stream_option s) then Some (feedback_sent s) else None)"

text \<open>Modelled from the spec: \<open>Start()\<close>, idempotent.\<close>

definition stream_Start :: "('a, 'p, 'e, 'd) DynStream \<Rightarrow> ('a, 'p, 'e, 'd) DynStream" where
  "stream_Start s = s\<lparr>started := True\<rparr>"

text \<open>Modelled from the spec: \<open>AddPath(p, d, settings?)\<close>. The worker \<open>w\<close> is the one the
  stream assigns the new path to.\<close>

definition AddPath ::
  "('a, 'p, 'e, 'd) Handler \<Rightarrow> ('a, 'p, 'e, 'd) DynStream \<Rightarrow> nat \<Rightarrow> 'p \<Rightarrow> 'd \<Rightarrow>
   AreaSettings list \<Rightarrow> stream_error + ('a, 'p, 'e, 'd) DynStream" where
  "AddPath h s w p d settings =
     (if closed s then Inl ClosedError
      else if paths s p \<noteq> None then Inl DuplicateError
      else
        let a = GetArea h p d;
            ps = \<lparr>path_area = a, path_dest = d, queue = [], pending_bytes = 0,
                  paused = False, pending_pause = False, awaiting = False,
                  owner_worker = w, upstream_paused = False\<rparr>
        in Inr (s\<lparr>paths := (paths s)(p \<mapsto> ps),
                  area_paths := (area_paths s)(a := area_paths s a + 1),
                  area_settings :=
                    (case settings of
                       [] \<Rightarrow> area_settings s
                     | st # others \<Rightarrow> (area_settings s)(a := AreaSettings_fix st))\<rparr>))"

text \<open>Modelled from the spec: \<open>RemovePath(p)\<close>. The queued events are dropped, with
  \<open>OnDrop\<close> for all but the periodic signals, and the area's accounting is decremented;
  an area that loses its last path is removed.\<close>

definition RemovePath ::
  "('a, 'p, 'e, 'd) Handler \<Rightarrow> ('a, 'p, 'e, 'd) DynStream \<Rightarrow> 'p \<Rightarrow>
   stream_error + ('a, 'p, 'e, 'd) DynStream" where
  "RemovePath h s p =
     (if closed s then Inl ClosedError
      else
        (case paths s p of
           None \<Rightarrow> Inl NotExistError
         | Some ps \<Rightarrow>
             let a = path_area ps
             in Inr (s\<lparr>paths := (paths s)(p := None),
                       dropped := dropped s \<union> fst ` set (queue ps),
                       OnDrop_calls := OnDrop_calls s @
                         map snd (filter (\<lambda>x. Property (GetType h (snd x)) \<noteq> PeriodicSignal)
                                    (queue ps)),
                       total_pending_bytes :=
                         (total_pending_bytes s)(a := total_pending_bytes s a - pending_bytes ps),
                       area_paths := (area_paths s)(a := area_paths s a - 1),
                       area_settings :=
                         (if area_paths s a \<le> 1 then (area_settings s)(a := NewAreaSettings)
                          else area_settings s)\<rparr>)))"

text \<open>Modelled from the spec: \<open>SetAreaSettings(a, settings)\<close>, a no-op for an area without paths.\<close>

definition SetAreaSettings ::
  "('a, 'p, 'e, 'd) DynStream \<Rightarrow> 'a \<Rightarrow> AreaSettings \<Rightarrow> ('a, 'p, 'e, 'd) DynStream" where
  "SetAreaSettings s a settings =
     (if closed s \<or> area_paths s a = 0 then s
      else s\<lparr>area_settings := (area_settings s)(a := AreaSettings_fix settings)\<rparr>)"

text \<open>Modelled from the spec: the size of a queued event, \<open>GetSize\<close> read as a signed integer.\<close>

definition event_size :: "('a, 'p, 'e, 'd) Handler \<Rightarrow> 'e entry \<Rightarrow> int" where
  "event_size h x = sint (GetSize h (snd x))"

text \<open>Modelled from the spec: dropping an event, with or without the call of \<open>OnDrop\<close>.\<close>

definition drop_event ::
  "bool \<Rightarrow> ('a, 'p, 'e, 'd) DynStream \<Rightarrow> 'e entry \<Rightarrow> ('a, 'p, 'e, 'd) DynStream" where
  "drop_event call_OnDrop s x =
     s\<lparr>dropped := insert (fst x) (dropped s),
       OnDrop_calls := (if call_OnDrop then OnDrop_calls s @ [snd x] else OnDrop_calls s)\<rparr>"

text \<open>Modelled from the spec: a queued periodic signal of the data group of \<open>t\<close>.\<close>

definition same_signal :: "('a, 'p, 'e, 'd) Handler \<Rightarrow> EventType \<Rightarrow> 'e entry \<Rightarrow> bool" where
  "same_signal h t x =
     (Property (GetType h (snd x)) = PeriodicSignal \<and>
      DataGroup (GetType h (snd x)) = DataGroup t)"

text \<open>Modelled from the spec: step 6 of the admission, the event goes to the end of the
  path's queue; the bytes are accounted only under memory control.\<close>

definition enqueue ::
  "('a, 'p, 'e, 'd) Handler \<Rightarrow> ('a, 'p, 'e, 'd) DynStream \<Rightarrow> 'p \<Rightarrow> ('a, 'e, 'd) PathState \<Rightarrow>
   'e entry \<Rightarrow> ('a, 'p, 'e, 'd) DynStream" where
  "enqueue h s p ps x =
     (if EnableMemoryControl (stream_option s)
      then s\<lparr>paths := (paths s)(p \<mapsto> ps\<lparr>queue := queue ps @ [x],
                                          pending_bytes := pending_bytes ps + event_size h x\<rparr>),
             total_pending_bytes := (total_pending_bytes s)
               (path_area ps := total_pending_bytes s (path_area ps) + event_size h x)\<rparr>
      else s\<lparr>paths := (paths s)(p \<mapsto> ps\<lparr>queue := queue ps @ [x]\<rparr>)\<rparr>)"

text \<open>Modelled from the spec: step 3 of the admission, the earlier periodic signals of the
  same data group leave the queue without a call of \<open>OnDrop\<close>.\<close>

definition coalesce ::
  "('a, 'p, 'e, 'd) Handler \<Rightarrow> ('a, 'p, 'e, 'd) DynStream \<Rightarrow> ('a, 'e, 'd) PathState \<Rightarrow>
   EventType \<Rightarrow> ('a, 'p, 'e, 'd) DynStream \<times> ('a, 'e, 'd) PathState" where
  "coalesce h s ps t =
     (let earlier = filter (same_signal h t) (queue ps);
          kept = filter (\<lambda>x. \<not> same_signal h t x) (queue ps);
          freed = (if EnableMemoryControl (stream_option s)
                   then sum_list (map (event_size h) earlier) else 0)
      in (s\<lparr>dropped := dropped s \<union> fst ` set earlier,
            total_pending_bytes := (total_pending_bytes s)
              (path_area ps := total_pending_bytes s (path_area ps) - freed)\<rparr>,
          ps\<lparr>queue := kept, pending_bytes := pending_bytes ps - freed\<rparr>))"

text \<open>Modelled from the spec: the admission of section 4.2 for one event taken from the
  ingress channel, steps 1 to 6 in their order; after \<open>Close\<close> every event is dropped
  with \<open>OnDrop\<close>. An upstream pause state that differs from the local one sends a
  feedback record (section 4.5), under memory control.\<close>

definition admit ::
  "('a, 'p, 'e, 'd) Handler \<Rightarrow> ('a, 'p, 'e, 'd) DynStream \<Rightarrow> 'e \<Rightarrow> ('a, 'p, 'e, 'd) DynStream" where
  "admit h s0 e =
     (let x = (next_id s0, e);
          s = s0\<lparr>next_id := next_id s0 + 1, admitted := admitted s0 @ [x]\<rparr>;
          p = Path h e
      in if closed s then drop_event True s x
         else
           (case paths s p of
              None \<Rightarrow> drop_event True s x
            | Some ps0 \<Rightarrow>
                let t = GetType h e;
                    a = path_area ps0;
                    mc = EnableMemoryControl (stream_option s);
                    ps = ps0\<lparr>upstream_paused := IsPaused h e\<rparr>;
                    s = (if mc \<and> IsPaused h e \<noteq> paused ps
                         then s\<lparr>feedback_sent := feedback_sent s @
                                [\<lparr>Feedback_Area = a, Feedback_Path = p,
                                  Feedback_Dest = path_dest ps, Feedback_Pause = paused ps\<rparr>]\<rparr>
                         else s);
                    s = s\<lparr>paths := (paths s)(p \<mapsto> ps)\<rparr>
                in if Property t = PeriodicSignal then
                     (case coalesce h s ps t of (s, ps) \<Rightarrow> enqueue h s p ps x)
                   else if paused ps then drop_event True s x
                   else if mc \<and> total_pending_bytes s a + event_size h x
                                  > sint (MaxPendingSize (area_settings s a))
                   then drop_event True (s\<lparr>paths := (paths s)(p \<mapsto> ps\<lparr>pending_pause := True\<rparr>)\<rparr>) x
                   else enqueue h s p ps x))"

text \<open>Modelled from the spec: the batch of section 4.3, at most \<open>BatchCount\<close> events from the
  head of the queue that share the type of the first, and one event when that is
  \<open>NonBatchable\<close>.\<close>

definition next_batch ::
  "('a, 'p, 'e, 'd) Handler \<Rightarrow> go_int \<Rightarrow> 'e entry list \<Rightarrow> 'e entry list" where
  "next_batch h batch_count q =
     (case q of
        [] \<Rightarrow> []
      | x # rest \<Rightarrow>
          let t = GetType h (snd x);
              limit = (if Property t = NonBatchable then 1 else nat (sint batch_count))
          in take limit (takeWhile (\<lambda>y. GetType h (snd y) = t) q))"

text \<open>Modelled from the spec: the worker \<open>w\<close> handles the next batch of the path \<open>p\<close>, when
  it owns the path, the path is not awaiting and its queue is not empty (section 4.3);
  \<open>result\<close> is how the call of \<open>Handle\<close> ends. The batch leaves the queue and its
  accounting is released. When the call returns, the path awaits a wake token if the
  call says so. When the call panics, the worker catches the panic and treats the batch
  as dropped, with \<open>OnDrop\<close> for each of its events, and the path goes on (section 7).\<close>

definition dispatch ::
  "('a, 'p, 'e, 'd) Handler \<Rightarrow> ('a, 'p, 'e, 'd) DynStream \<Rightarrow> nat \<Rightarrow> 'p \<Rightarrow> Handle_result \<Rightarrow>
   ('a, 'p, 'e, 'd) DynStream" where
  "dispatch h s w p result =
     (if closed s then s
      else
        (case paths s p of
           None \<Rightarrow> s
         | Some ps \<Rightarrow>
             if owner_worker ps \<noteq> w \<or> awaiting ps \<or> queue ps = [] then s
             else
               let batch = next_batch h (BatchCount (stream_option s)) (queue ps);
                   bytes = (if EnableMemoryControl (stream_option s)
                            then sum_list (map (event_size h) batch) else 0);
                   s = s\<lparr>Handle_calls := Handle_calls s @ [(p, path_dest ps, batch, result)],
                        paths := (paths s)(p \<mapsto> ps\<lparr>queue := drop (length batch) (queue ps),
                                                     pending_bytes := pending_bytes ps - bytes,
                                                     awaiting := (result = Returns True)\<rparr>),
                        total_pending_bytes := (total_pending_bytes s)
                          (path_area ps := total_pending_bytes s (path_area ps) - bytes)\<rparr>
               in (case result of
                     Returns await \<Rightarrow> s
                   | Panics \<Rightarrow> s\<lparr>dropped := dropped s \<union> fst ` set batch,
                                   OnDrop_calls := OnDrop_calls s @ map snd batch\<rparr>)))"

text \<open>Modelled from the spec: a token for \<open>p\<close> on the \<open>Wake\<close> channel.\<close>

definition wake :: "('a, 'p, 'e, 'd) DynStream \<Rightarrow> 'p \<Rightarrow> ('a, 'p, 'e, 'd) DynStream" where
  "wake s p =
     (case paths s p of
        None \<Rightarrow> s
      | Some ps \<Rightarrow> s\<lparr>paths := (paths s)(p \<mapsto> ps\<lparr>awaiting := False\<rparr>)\<rparr>)"

text \<open>Modelled from the spec: the scheduler reassigns the path \<open>p\<close> to the worker \<open>w\<close>
  (section 4.4); between two steps no batch is in flight.\<close>

definition migrate ::
  "('a, 'p, 'e, 'd) DynStream \<Rightarrow> 'p \<Rightarrow> nat \<Rightarrow> ('a, 'p, 'e, 'd) DynStream" where
  "migrate s p w =
     (case paths s p of
        None \<Rightarrow> s
      | Some ps \<Rightarrow>
          if closed s \<or> \<not> int w < sint (StreamCount (stream_option s)) then s
          else s\<lparr>paths := (paths s)(p \<mapsto> ps\<lparr>owner_worker := w\<rparr>)\<rparr>)"

text \<open>Modelled from the spec: the pause transition of section 4.5 for one path, with its
  feedback record.\<close>

definition pause_path ::
  "('a, 'p, 'e, 'd) DynStream \<Rightarrow> 'p \<Rightarrow> ('a, 'p, 'e, 'd) DynStream" where
  "pause_path s p =
     (case paths s p of
        None \<Rightarrow> s
      | Some ps \<Rightarrow>
          if EnableMemoryControl (stream_option s) \<and> \<not> paused ps \<and>
             (pending_pause ps \<or>
              total_pending_bytes s (path_area ps)
                \<ge> sint (MaxPendingSize (area_settings s (path_area ps))))
          then s\<lparr>paths := (paths s)(p \<mapsto> ps\<lparr>paused := True, pending_pause := False\<rparr>),
                 feedback_sent := feedback_sent s @
                   [\<lparr>Feedback_Area = path_area ps, Feedback_Path = p,
                     Feedback_Dest = path_dest ps, Feedback_Pause = True\<rparr>]\<rparr>
          else s)"

text \<open>Modelled from the spec: the resume transition of section 4.5 for one path, at the
  low-water mark of half the maximum, with its feedback record.\<close>

definition resume_path ::
  "('a, 'p, 'e, 'd) DynStream \<Rightarrow> 'p \<Rightarrow> ('a, 'p, 'e, 'd) DynStream" where
  "resume_path s p =
     (case paths s p of
        None \<Rightarrow> s
      | Some ps \<Rightarrow>
          if EnableMemoryControl (stream_option s) \<and> paused ps \<and>
             2 * total_pending_bytes s (path_area ps)
               \<le> sint (MaxPendingSize (area_settings s (path_area ps)))
          then s\<lparr>paths := (paths s)(p \<mapsto> ps\<lparr>paused := False\<rparr>),
                 feedback_sent := feedback_sent s @
                   [\<lparr>Feedback_Area = path_area ps, Feedback_Path = p,
                     Feedback_Dest = path_dest ps, Feedback_Pause = False\<rparr>]\<rparr>
          else s)"

text \<open>Modelled from the spec: an admitted event that is still in the queue of its path.\<close>

definition still_queued ::
  "('a, 'p, 'e, 'd) Handler \<Rightarrow> ('a, 'p, 'e, 'd) DynStream \<Rightarrow> 'e entry \<Rightarrow> bool" where
  "still_queued h s x =
     (case paths s (Path h (snd x)) of
        None \<Rightarrow> False
      | Some ps \<Rightarrow> x \<in> set (queue ps))"

text \<open>Modelled from the spec: \<open>Close()\<close>, idempotent: the queued events are dropped with
  \<open>OnDrop\<close>.\<close>

definition stream_Close ::
  "('a, 'p, 'e, 'd) Handler \<Rightarrow> ('a, 'p, 'e, 'd) DynStream \<Rightarrow> ('a, 'p, 'e, 'd) DynStream" where
  "stream_Close h s =
     (if closed s then s
      else
        let remaining = filter (still_queued h s) (admitted s)
        in s\<lparr>closed := True,
             dropped := dropped s \<union> fst ` set remaining,
             OnDrop_calls := OnDrop_calls s @ map snd remaining,
             paths := (\<lambda>p. map_option (\<lambda>ps. ps\<lparr>queue := [], pending_bytes := 0\<rparr>) (paths s p)),
             total_pending_bytes := (\<lambda>a. 0)\<rparr>)"

text \<open>Modelled from the spec: the steps of an execution.\<close>

datatype ('a, 'p, 'e, 'd) action =
    Act_Start
  | Act_Close
  | Act_AddPath nat 'p 'd "AreaSettings list"
  | Act_RemovePath 'p
  | Act_SetAreaSettings 'a AreaSettings
  | Act_In 'e
  | Act_Wake 'p
  | Act_Handle nat 'p Handle_result
  | Act_Migrate 'p nat
  | Act_Pause 'p
  | Act_Resume 'p

text \<open>Modelled from the spec: one step. \<open>Start\<close> precedes every other call: before it no
  step has an effect. A call that returns an error leaves the stream as it was.\<close>

fun step ::
  "('a, 'p, 'e, 'd) Handler \<Rightarrow> ('a, 'p, 'e, 'd) DynStream \<Rightarrow> ('a, 'p, 'e, 'd) action \<Rightarrow>
   ('a, 'p, 'e, 'd) DynStream" where
  "step h s Act_Start = stream_Start s"
| "step h s Act_Close = (if started s then stream_Close h s else s)"
| "step h s (Act_AddPath w p d settings) =
     (if started s \<and> int w < sint (StreamCount (stream_option s))
      then (case AddPath h s w p d settings of Inl err \<Rightarrow> s | Inr s' \<Rightarrow> s')
      else s)"
| "step h s (Act_RemovePath p) =
     (if started s then (case RemovePath h s p of Inl err \<Rightarrow> s | Inr s' \<Rightarrow> s') else s)"
| "step h s (Act_SetAreaSettings a settings) =
     (if started s then SetAreaSettings s a settings else s)"
| "step h s (Act_In e) = (if started s then admit h s e else s)"
| "step h s (Act_Wake p) = (if started s then wake s p else s)"
| "step h s (Act_Handle w p result) = (if started s then dispatch h s w p result else s)"
| "step h s (Act_Migrate p w) = (if started s then migrate s p w else s)"
| "step h s (Act_Pause p) = (if started s then pause_path s p else s)"
| "step h s (Act_Resume p) = (if started s then resume_path s p else s)"

text \<open>Modelled from the spec: an execution from a state.\<close>

fun run ::
  "('a, 'p, 'e, 'd) Handler \<Rightarrow> ('a, 'p, 'e, 'd) DynStream \<Rightarrow> ('a, 'p, 'e, 'd) action list \<Rightarrow>
   ('a, 'p, 'e, 'd) DynStream" where
  "run h s [] = s"
| "run h s (a # acts) = run h (step h s a) acts"

text \<open>The sequences of the per-path order, on numbered events. What the calls of
  \<open>Handle\<close> for \<open>p\<close> received, over all calls and over the calls that returned; what is in
  the queue of \<open>p\<close>; the events that a panicking call of \<open>Handle\<close> received, for all
  paths.\<close>

definition handled_entries :: "('a, 'p, 'e, 'd) DynStream \<Rightarrow> 'p \<Rightarrow> 'e entry list" where
  "handled_entries s p =
     concat (map (\<lambda>c. fst (snd (snd c))) (filter (\<lambda>c. fst c = p) (Handle_calls s)))"

definition returned_entries :: "('a, 'p, 'e, 'd) DynStream \<Rightarrow> 'p \<Rightarrow> 'e entry list" where
  "returned_entries s p =
     concat (map (\<lambda>c. fst (snd (snd c)))
               (filter (\<lambda>c. fst c = p \<and> snd (snd (snd c)) \<noteq> Panics) (Handle_calls s)))"

definition panicked_entries :: "('a, 'p, 'e, 'd) DynStream \<Rightarrow> 'e entry list" where
  "panicked_entries s =
     concat (map (\<lambda>c. fst (snd (snd c)))
               (filter (\<lambda>c. snd (snd (snd c)) = Panics) (Handle_calls s)))"

definition queued_entries :: "('a, 'p, 'e, 'd) DynStream \<Rightarrow> 'p \<Rightarrow> 'e entry list" where
  "queued_entries s p = (case paths s p of None \<Rightarrow> [] | Some ps \<Rightarrow> queue ps)"

text \<open>The events of \<open>p\<close> taken from the ingress channel and not dropped, in the order
  of their admission; and those not dropped before a call of \<open>Handle\<close> received them.\<close>

definition undropped_entries ::
  "('a, 'p, 'e, 'd) Handler \<Rightarrow> ('a, 'p, 'e, 'd) DynStream \<Rightarrow> 'p \<Rightarrow> 'e entry list" where
  "undropped_entries h s p =
     filter (\<lambda>x. Path h (snd x) = p \<and> fst x \<notin> dropped s) (admitted s)"

definition reached_entries ::
  "('a, 'p, 'e, 'd) Handler \<Rightarrow> ('a, 'p, 'e, 'd) DynStream \<Rightarrow> 'p \<Rightarrow> 'e entry list" where
  "reached_entries h s p =
     filter (\<lambda>x. Path h (snd x) = p \<and>
                  fst x \<notin> dropped s - fst ` set (panicked_entries s))
       (admitted s)"

text \<open>The same sequences as the events themselves.\<close>

definition handled_events :: "('a, 'p, 'e, 'd) DynStream \<Rightarrow> 'p \<Rightarrow> 'e list" where
  "handled_events s p =
     concat (map (\<lambda>c. map snd (fst (snd (snd c)))) (filter (\<lambda>c. fst c = p) (Handle_calls s)))"

definition returned_events :: "('a, 'p, 'e, 'd) DynStream \<Rightarrow> 'p \<Rightarrow> 'e list" where
  "returned_events s p =
     concat (map (\<lambda>c. map snd (fst (snd (snd c))))
               (filter (\<lambda>c. fst c = p \<and> snd (snd (snd c)) \<noteq> Panics) (Handle_calls s)))"

definition queued_events :: "('a, 'p, 'e, 'd) DynStream \<Rightarrow> 'p \<Rightarrow> 'e list" where
  "queued_events s p = map snd (queued_entries s p)"

definition undropped_events ::
  "('a, 'p, 'e, 'd) Handler \<Rightarrow> ('a, 'p, 'e, 'd) DynStream \<Rightarrow> 'p \<Rightarrow> 'e list" where
  "undropped_events h s p = map snd (undropped_entries h s p)"

definition reached_events ::
  "('a, 'p, 'e, 'd) Handler \<Rightarrow> ('a, 'p, 'e, 'd) DynStream \<Rightarrow> 'p \<Rightarrow> 'e list" where
  "reached_events h s p = map snd (reached_entries h s p)"

text \<open>The order invariant, for the handled sequences \<open>H\<close>, the queues \<open>Q\<close>, the admitted
  events \<open>A\<close>, a set \<open>D\<close> of numbers and the next number \<open>n\<close>: for every path, what was
  handled followed by what is queued is what was admitted and is not in \<open>D\<close>; the
  numbers of the admitted events are distinct and below \<open>n\<close>, as are those in \<open>D\<close>.\<close>

definition order_inv ::
  "('a, 'p, 'e, 'd) Handler \<Rightarrow> ('p \<Rightarrow> 'e entry list) \<Rightarrow> ('p \<Rightarrow> 'e entry list) \<Rightarrow>
   'e entry list \<Rightarrow> nat set \<Rightarrow> nat \<Rightarrow> bool" where
  "order_inv h H Q A D n =
     ((\<forall>p. H p @ Q p = filter (\<lambda>x. Path h (snd x) = p \<and> fst x \<notin> D) A) \<and>
      distinct (map fst A) \<and>
      (\<forall>x \<in> set A. fst x < n) \<and>
      (\<forall>m \<in> D. m < n))"

text \<open>The invariant of the executions: the order invariant of the calls that returned
  with the dropped events, and of all the calls with the events dropped before a call
  of \<open>Handle\<close>; what a panicking call received is dropped.\<close>

definition stream_inv :: "('a, 'p, 'e, 'd) Handler \<Rightarrow> ('a, 'p, 'e, 'd) DynStream \<Rightarrow> bool" where
  "stream_inv h s =
     (order_inv h (returned_entries s) (queued_entries s) (admitted s) (dropped s) (next_id s) \<and>
      order_inv h (handled_entries s) (queued_entries s) (admitted s)
        (dropped s - fst ` set (panicked_entries s)) (next_id s) \<and>
      fst ` set (panicked_entries s) \<subseteq> dropped s)"

text \<open>The admission drops the event \<open>e\<close>: the stream is closed, the path is unknown, or the
  event is no periodic signal and the path is paused or the area would overflow.\<close>

definition refused ::
  "('a, 'p, 'e, 'd) Handler \<Rightarrow> ('a, 'p, 'e, 'd) DynStream \<Rightarrow> 'e \<Rightarrow> bool" where
  "refused h s e =
     (closed s \<or>
      (case paths s (Path h e) of
         None \<Rightarrow> True
       | Some ps \<Rightarrow>
           Property (GetType h e) \<noteq> PeriodicSignal \<and>
           (paused ps \<or>
            (EnableMemoryControl (stream_option s) \<and>
             total_pending_bytes s (path_area ps) + event_size h (next_id s, e)
               > sint (MaxPendingSize (area_settings s (path_area ps)))))))"

text \<open>A handler and an execution to run the model on: events are triples of a path, a
  property and a payload; all paths are in area 0.\<close>

definition example_handler :: "(nat, nat, nat \<times> Property \<times> nat, string) Handler" where
  "example_handler =
     \<lparr>Path = fst, GetSize = (\<lambda>e. 100), IsPaused = (\<lambda>e. False), GetArea = (\<lambda>p d. 0),
      GetTimestamp = (\<lambda>e. 0), GetType = (\<lambda>e. \<lparr>DataGroup = 0, Property = fst (snd e)\<rparr>)\<rparr>"

definition example_actions :: "(nat, nat, nat \<times> Property \<times> nat, string) action list" where
  "example_actions =
     [Act_Start, Act_AddPath 0 1 ''d'' [\<lparr>MaxPendingSize = 150, FeedbackInterval = 0\<rparr>],
      Act_In (1, 0, 10), Act_In (1, 0, 11), Act_Pause 1, Act_In (1, 1, 12), Act_In (2, 0, 13),
      Act_In (1, 1, 14), Act_Handle 0 1 (Returns False), Act_Migrate 1 1,
      Act_Handle 0 1 (Returns False), Act_Handle 1 1 (Returns False),
      Act_Handle 1 1 (Returns False)]"

text \<open>An execution in which the first call of \<open>Handle\<close> panics.\<close>

definition example_panic_actions ::
  "(nat, nat, nat \<times> Property \<times> nat, string) action list" where
  "example_panic_actions =
     [Act_Start, Act_AddPath 0 1 ''d'' [],
      Act_In (1, 0, 10), Act_In (1, 2, 11), Act_In (1, 0, 12),
      Act_Handle 0 1 Panics, Act_Migrate 1 1, Act_Handle 1 1 (Returns False)]"

section \<open>Properties of the configuration\<close>

text \<open>
  C3. \<open>NewDynamicStream\<close> panics exactly when the platform's \<open>int\<close> is not 8 bytes wide;
  with an 8-byte \<open>int\<close> it returns the stream that \<open>newDynamicStreamImpl\<close> builds from the
  handler and the first supplied option, or from \<open>NewOption()\<close> when none is supplied.
\<close>

theorem NewDynamicStream_panics_iff:
  "((\<exists>msg. NewDynamicStream sz impl h opts = Inl msg) \<longleftrightarrow> sz \<noteq> 8) \<and>
   (sz = 8 \<longrightarrow>
      NewDynamicStream sz impl h opts =
        Inr (impl h (case opts of [] \<Rightarrow> NewOption | o1 # _ \<Rightarrow> o1)))"
  by (cases opts) (simp_all add: NewDynamicStream_def)

theorem NewDynamicStream_panics_iff_witness:
  "NewDynamicStream 8 Pair (0::nat) [NewOption\<lparr>BatchCount := 8\<rparr>, NewOption]
     = Inr (0, NewOption\<lparr>BatchCount := 8\<rparr>) \<and>
   NewDynamicStream 8 Pair (0::nat) [] = Inr (0, NewOption) \<and>
   NewDynamicStream 4 Pair (0::nat) [NewOption]
     = (Inl ''int is not int64'' :: string + nat \<times> Option)"
  using NewDynamicStream_panics_iff [of 8 Pair "0::nat" "[NewOption\<lparr>BatchCount := 8\<rparr>, NewOption]"]
        NewDynamicStream_panics_iff [of 8 Pair "0::nat" "[]"]
        NewDynamicStream_panics_iff [of 4 Pair "0::nat" "[NewOption]"]
  by (simp add: NewDynamicStream_def)

text \<open>
  C4. After \<open>o.fix()\<close>: a \<open>StreamCount\<close> of 0 has become \<open>runtime.NumCPU()\<close> and any other
  value is unchanged; a \<open>BatchCount\<close> of at most 0 has become 1 and a \<open>BatchCount\<close> of at
  least 1 is unchanged, so that a \<open>BatchCount\<close> of at most 1 gives the batch size 1; every
  other field is unchanged.
\<close>

theorem Option_fix_spec:
  "StreamCount (Option_fix n o1) = (if StreamCount o1 = 0 then n else StreamCount o1) \<and>
   BatchCount (Option_fix n o1) = (if sint (BatchCount o1) \<le> 0 then 1 else BatchCount o1) \<and>
   (sint (BatchCount o1) \<le> 1 \<longrightarrow> BatchCount (Option_fix n o1) = 1) \<and>
   (1 \<le> sint (BatchCount o1) \<longrightarrow> BatchCount (Option_fix n o1) = BatchCount o1) \<and>
   SchedulerInterval (Option_fix n o1) = SchedulerInterval o1 \<and>
   ReportInterval (Option_fix n o1) = ReportInterval o1 \<and>
   EnableMemoryControl (Option_fix n o1) = EnableMemoryControl o1 \<and>
   handleWait (Option_fix n o1) = handleWait o1"
proof -
  have one: "sint (BatchCount o1) \<le> 1 \<Longrightarrow> \<not> sint (BatchCount o1) \<le> 0 \<Longrightarrow> BatchCount o1 = 1"
  proof -
    assume "sint (BatchCount o1) \<le> 1" and "\<not> sint (BatchCount o1) \<le> 0"
    then have "sint (BatchCount o1) = sint (1 :: go_int)" by simp
    then show "BatchCount o1 = 1" by (rule signed_word_eqI)
  qed
  show ?thesis
    using one by (auto simp: Option_fix_def Let_def)
qed

theorem Option_fix_spec_witness:
  "Option_fix 16 (NewOption\<lparr>BatchCount := -3\<rparr>) = NewOption\<lparr>StreamCount := 16\<rparr> \<and>
   Option_fix 16 (NewOption\<lparr>StreamCount := 4, BatchCount := 32\<rparr>)
     = NewOption\<lparr>StreamCount := 4, BatchCount := 32\<rparr>"
  using Option_fix_spec [of 16 "NewOption\<lparr>BatchCount := -3\<rparr>"]
        Option_fix_spec [of 16 "NewOption\<lparr>StreamCount := 4, BatchCount := 32\<rparr>"]
  by (simp add: Option_fix_def NewOption_def)

text \<open>
  C5. After \<open>s.fix()\<close>, \<open>MaxPendingSize\<close> is positive: an input of at most 0 has become
  the default, 128 MiB = 134217728 bytes, and a positive input is unchanged. A
  \<open>FeedbackInterval\<close> of 0 has become the default of one second (1000000000 ns); a negative
  or positive one is unchanged.
\<close>

theorem AreaSettings_fix_spec:
  "0 < sint (MaxPendingSize (AreaSettings_fix s)) \<and>
   (sint (MaxPendingSize s) \<le> 0 \<longrightarrow> MaxPendingSize (AreaSettings_fix s) = 134217728) \<and>
   (0 < sint (MaxPendingSize s) \<longrightarrow> MaxPendingSize (AreaSettings_fix s) = MaxPendingSize s) \<and>
   (FeedbackInterval s = 0 \<longrightarrow>
      FeedbackInterval (AreaSettings_fix s) = Second \<and>
      FeedbackInterval (AreaSettings_fix s) = 1000000000) \<and>
   (FeedbackInterval s \<noteq> 0 \<longrightarrow> FeedbackInterval (AreaSettings_fix s) = FeedbackInterval s)"
  by (simp add: AreaSettings_fix_def Let_def DefaultMaxPendingSize_def
      DefaultFeedbackInterval_def Second_def Millisecond_def)

theorem AreaSettings_fix_spec_witness:
  "AreaSettings_fix \<lparr>MaxPendingSize = - 5, FeedbackInterval = 0\<rparr>
     = \<lparr>MaxPendingSize = 134217728, FeedbackInterval = 1000000000\<rparr> \<and>
   AreaSettings_fix \<lparr>MaxPendingSize = 1000, FeedbackInterval = - 1\<rparr>
     = \<lparr>MaxPendingSize = 1000, FeedbackInterval = - 1\<rparr>"
  using AreaSettings_fix_spec [of "\<lparr>MaxPendingSize = - 5, FeedbackInterval = 0\<rparr>"]
        AreaSettings_fix_spec [of "\<lparr>MaxPendingSize = 1000, FeedbackInterval = - 1\<rparr>"]
  by (simp add: AreaSettings_fix_def)

text \<open>
  C6. \<open>NewOption()\<close> has \<open>SchedulerInterval\<close> one second, \<open>ReportInterval\<close> 500
  milliseconds (both in nanoseconds), \<open>StreamCount\<close> 0, \<open>BatchCount\<close> 1 and
  \<open>EnableMemoryControl\<close> false.
\<close>

theorem NewOption_defaults:
  "SchedulerInterval NewOption = Second \<and>
   SchedulerInterval NewOption = 1000000000 \<and>
   ReportInterval NewOption = 500 * Millisecond \<and>
   ReportInterval NewOption = 500000000 \<and>
   StreamCount NewOption = 0 \<and>
   BatchCount NewOption = 1 \<and>
   EnableMemoryControl NewOption = False"
  by (simp add: NewOption_def DefaultSchedulerInterval_def DefaultReportInterval_def
      Second_def Millisecond_def)

text \<open>
  C7. \<open>DefaultEventType\<close> has \<open>DataGroup\<close> 0 and \<open>Property\<close> \<open>BatchableData\<close>, and
  \<open>BatchableData\<close> is 0, the zero value of \<open>Property\<close>; the other two properties differ
  from it.
\<close>

theorem DefaultEventType_zero:
  "DataGroup DefaultEventType = 0 \<and>
   Property DefaultEventType = BatchableData \<and>
   BatchableData = 0 \<and>
   DefaultEventType = \<lparr>DataGroup = 0, Property = BatchableData\<rparr> \<and>
   PeriodicSignal \<noteq> BatchableData \<and> NonBatchable \<noteq> BatchableData"
  by (simp add: DefaultEventType_def BatchableData_def PeriodicSignal_def NonBatchable_def)

section \<open>Properties of the conflict keys\<close>

subsection \<open>genKeyList and genRowKeys\<close>

lemma genKeyList_loop_in_range:
  "list_all (\<lambda>i. 0 \<le> i \<and> i < int (length columns)) colIdx \<Longrightarrow>
   (if list_all (\<lambda>i. usable_column env (columns ! nat i)) colIdx
    then \<exists>k. genKeyList_loop env columns colIdx key = Inr (Some k)
    else genKeyList_loop env columns colIdx key = Inr None)"
proof (induction colIdx arbitrary: key)
  case Nil
  then show ?case by simp
next
  case (Cons i colIdx)
  then have i: "\<not> (i < 0 \<or> int (length columns) \<le> i)"
    and rest: "list_all (\<lambda>i. 0 \<le> i \<and> i < int (length columns)) colIdx"
    by auto
  show ?case
  proof (cases "usable_column env (columns ! nat i)")
    case False
    then show ?thesis
      using i by (auto simp: usable_column_def split: option.splits)
  next
    case True
    then obtain c v where c: "columns ! nat i = Some c" "Value c = Some v"
      "\<not> IsGeneratedColumn env (Flag c)"
      by (auto simp: usable_column_def split: option.splits)
    show ?thesis
      using True Cons.IH [OF rest] i c by (simp add: Let_def)
  qed
qed

lemma genKeyList_loop_length:
  "genKeyList_loop env columns colIdx key = Inr (Some k) \<Longrightarrow>
   length key + length colIdx \<le> length k"
proof (induction colIdx arbitrary: key)
  case Nil
  then show ?case by simp
next
  case (Cons i colIdx)
  from Cons.prems obtain key' where "genKeyList_loop env columns colIdx key' = Inr (Some k)"
    and "length key < length key'"
    by (auto simp: Let_def split: if_splits option.splits)
  with Cons.IH [of key'] show ?case by simp
qed

lemma genKeyList_in_range:
  assumes "list_all (\<lambda>i. 0 \<le> i \<and> i < int (length columns)) colIdx"
  shows "if index_gives_key env columns colIdx
         then \<exists>key. genKeyList env columns iIdx colIdx tableID = Inr (Some key) \<and> key \<noteq> []
         else genKeyList env columns iIdx colIdx tableID = Inr None"
proof (cases "list_all (\<lambda>i. usable_column env (columns ! nat i)) colIdx")
  case False
  then show ?thesis
    using genKeyList_loop_in_range [OF assms, of env "[]"]
    by (simp add: genKeyList_def index_gives_key_def)
next
  case True
  then obtain k where k: "genKeyList_loop env columns colIdx [] = Inr (Some k)"
    using genKeyList_loop_in_range [OF assms, of env "[]"] by auto
  show ?thesis
  proof (cases colIdx)
    case Nil
    then show ?thesis by (simp add: genKeyList_def index_gives_key_def)
  next
    case (Cons i rest)
    with genKeyList_loop_length [OF k] have "k \<noteq> []" by auto
    with k True Cons show ?thesis by (simp add: genKeyList_def index_gives_key_def)
  qed
qed

lemma genKeyList_Some_nonempty:
  "genKeyList env columns iIdx colIdx tableID = Inr (Some key) \<Longrightarrow> key \<noteq> []"
  by (auto simp: genKeyList_def split: sum.splits option.splits if_splits)

lemma genRowKeys_loop_index_keys:
  "list_all (\<lambda>(iIdx, idxCol). list_all (\<lambda>i. 0 \<le> i \<and> i < int (length columns)) idxCol) offsets \<Longrightarrow>
   genRowKeys_loop env columns tableID offsets keys =
     Inr (keys @ index_keys env columns tableID offsets)"
proof (induction offsets arbitrary: keys)
  case Nil
  then show ?case by (simp add: index_keys_def)
next
  case (Cons x offsets)
  obtain iIdx idxCol where x: "x = (iIdx, idxCol)" by (cases x)
  from Cons.prems x have r: "list_all (\<lambda>i. 0 \<le> i \<and> i < int (length columns)) idxCol"
    and rest: "list_all (\<lambda>(iIdx, idxCol). list_all (\<lambda>i. 0 \<le> i \<and> i < int (length columns)) idxCol) offsets"
    by simp_all
  have tail: "index_keys env columns tableID (x # offsets) =
      (case genKeyList env columns iIdx idxCol tableID of Inr (Some key) \<Rightarrow> [key] | _ \<Rightarrow> [])
        @ index_keys env columns tableID offsets"
    by (simp add: index_keys_def x)
  show ?case
  proof (cases "index_gives_key env columns idxCol")
    case False
    then have "genKeyList env columns iIdx idxCol tableID = Inr None"
      using genKeyList_in_range [OF r, of env iIdx tableID] by simp
    then show ?thesis using Cons.IH [OF rest] tail by (simp add: x)
  next
    case True
    then obtain key where k: "genKeyList env columns iIdx idxCol tableID = Inr (Some key)"
      and "key \<noteq> []"
      using genKeyList_in_range [OF r, of env iIdx tableID] by auto
    then show ?thesis using Cons.IH [OF rest] tail by (simp add: x)
  qed
qed

lemma enumerate_in_range:
  "offsets_in_range columns offsets \<Longrightarrow>
   list_all (\<lambda>(iIdx, idxCol). list_all (\<lambda>i. 0 \<le> i \<and> i < int (length columns)) idxCol)
     (enumerate n offsets)"
  by (induction offsets arbitrary: n) (simp_all add: offsets_in_range_def)

lemma genRowKeys_in_range:
  assumes "row_offsets_in_range env row"
  shows "genRowKeys env row =
     Inr (if row_index_keys env row = [] then [PutUint64 (GetTableID env row)]
          else row_index_keys env row)"
proof -
  have c: "length (Columns row) \<noteq> 0 \<Longrightarrow>
      genRowKeys_loop env (GetColumns env row) (GetTableID env row)
        (enumerate 0 (IndexColumnsOffset (TableInfo row))) [] =
      Inr (index_keys env (GetColumns env row) (GetTableID env row)
        (enumerate 0 (IndexColumnsOffset (TableInfo row))))"
    using assms genRowKeys_loop_index_keys [OF enumerate_in_range,
        where columns = "GetColumns env row" and env = env and keys = "[]"]
    by (simp add: row_offsets_in_range_def)
  have p: "length (PreColumns row) \<noteq> 0 \<Longrightarrow>
      genRowKeys_loop env (GetPreColumns env row) (GetTableID env row)
        (enumerate 0 (IndexColumnsOffset (TableInfo row))) keys =
      Inr (keys @ index_keys env (GetPreColumns env row) (GetTableID env row)
        (enumerate 0 (IndexColumnsOffset (TableInfo row))))" for keys
    using assms genRowKeys_loop_index_keys [OF enumerate_in_range,
        where columns = "GetPreColumns env row" and env = env and keys = keys]
    by (simp add: row_offsets_in_range_def)
  show ?thesis
    using c p by (simp add: genRowKeys_def row_index_keys_def)
qed

lemma byte_at:
  "k + 8 \<le> 64 \<Longrightarrow>
   bit (push_bit k (ucast (ucast (drop_bit k (v :: 64 word)) :: byte)) :: 64 word) n
     = (k \<le> n \<and> n < k + 8 \<and> bit v n)"
  by (auto simp: bit_push_bit_iff bit_ucast_iff bit_drop_bit_eq dest: bit_imp_le_length)

lemma Uint64_PutUint64: "Uint64 (PutUint64 v) = v"
proof (rule bit_word_eqI)
  fix n assume "n < LENGTH(64)"
  then have n: "n < 64" by simp
  have b0: "bit (ucast (ucast v :: byte) :: 64 word) n = (n < 8 \<and> bit v n)"
    using byte_at [of 0 v n] by simp
  have "bit (Uint64 (PutUint64 v)) n =
    ((n < 8 \<and> bit v n) \<or> (8 \<le> n \<and> n < 16 \<and> bit v n) \<or> (16 \<le> n \<and> n < 24 \<and> bit v n) \<or>
     (24 \<le> n \<and> n < 32 \<and> bit v n) \<or> (32 \<le> n \<and> n < 40 \<and> bit v n) \<or>
     (40 \<le> n \<and> n < 48 \<and> bit v n) \<or> (48 \<le> n \<and> n < 56 \<and> bit v n) \<or>
     (56 \<le> n \<and> n < 64 \<and> bit v n))"
    unfolding Uint64_def PutUint64_def
    using byte_at [of 8 v n] byte_at [of 16 v n] byte_at [of 24 v n] byte_at [of 32 v n]
      byte_at [of 40 v n] byte_at [of 48 v n] byte_at [of 56 v n] b0
    by (simp add: bit_or_iff)
  also have "\<dots> = bit v n" using n by auto
  finally show "bit (Uint64 (PutUint64 v)) n = bit v n" .
qed

lemma ucast_32_64_bound: "unat (ucast (h :: 32 word) :: 64 word) < 2 ^ 32"
proof -
  have h: "unat h < 2 ^ 32" using unsigned_less [of h, where 'a = nat] by simp
  then have "unat h < 2 ^ 64" by simp
  then have "take_bit 64 (unat h) = unat h" by (simp only: take_bit_nat_eq_self)
  then have "unat (ucast h :: 64 word) = unat h"
    by (simp add: unsigned_ucast_eq)
  with h show ?thesis by simp
qed

lemma genKeyList_loop_Some:
  "genKeyList_loop env columns colIdx key = Inr (Some k) \<Longrightarrow>
   list_all (\<lambda>i. 0 \<le> i \<and> i < int (length columns) \<and> usable_column env (columns ! nat i)) colIdx"
proof (induction colIdx arbitrary: key)
  case Nil
  then show ?case by simp
next
  case (Cons i colIdx)
  from Cons.prems obtain key' where "genKeyList_loop env columns colIdx key' = Inr (Some k)"
    and "0 \<le> i \<and> i < int (length columns) \<and> usable_column env (columns ! nat i)"
    by (auto simp: Let_def usable_column_def split: if_splits option.splits)
  with Cons.IH [of key'] show ?case by simp
qed

lemma genRowKeys_loop_returns:
  "genRowKeys_loop env columns tableID offsets keys = Inr ks \<Longrightarrow>
   ks = keys @ index_keys env columns tableID offsets"
proof (induction offsets arbitrary: keys)
  case Nil
  then show ?case by (simp add: index_keys_def)
next
  case (Cons x offsets)
  obtain iIdx idxCol where x: "x = (iIdx, idxCol)" by (cases x)
  have tail: "index_keys env columns tableID (x # offsets) =
      (case genKeyList env columns iIdx idxCol tableID of Inr (Some key) \<Rightarrow> [key] | _ \<Rightarrow> [])
        @ index_keys env columns tableID offsets"
    by (simp add: index_keys_def x)
  show ?case
  proof (cases "genKeyList env columns iIdx idxCol tableID")
    case (Inl p)
    with Cons.prems x show ?thesis by simp
  next
    case (Inr r)
    show ?thesis
    proof (cases r)
      case None
      with Inr Cons.prems x Cons.IH [of keys] tail show ?thesis by simp
    next
      case (Some key)
      with Inr have "key \<noteq> []" by (simp add: genKeyList_Some_nonempty)
      with Some Inr Cons.prems x Cons.IH [of "keys @ [key]"] tail show ?thesis by simp
    qed
  qed
qed

lemma genRowKeys_returns:
  assumes "genRowKeys env row = Inr keys"
  shows "keys \<noteq> [] \<and>
         keys = (if row_index_keys env row = [] then [PutUint64 (GetTableID env row)]
                 else row_index_keys env row)"
proof -
  define c where "c = (if length (Columns row) \<noteq> 0
            then genRowKeys_loop env (GetColumns env row) (GetTableID env row)
                   (enumerate 0 (IndexColumnsOffset (TableInfo row))) []
            else Inr [])"
  from assms obtain k1 where k1: "c = Inr k1"
    by (cases c) (simp_all add: genRowKeys_def c_def)
  define p where "p = (if length (PreColumns row) \<noteq> 0
                 then genRowKeys_loop env (GetPreColumns env row) (GetTableID env row)
                        (enumerate 0 (IndexColumnsOffset (TableInfo row))) k1
                 else Inr k1)"
  from assms k1 obtain k2 where k2: "p = Inr k2"
    by (cases p) (simp_all add: genRowKeys_def c_def p_def)
  have r: "keys = (if length k2 = 0 then [PutUint64 (GetTableID env row)] else k2)"
    using assms k1 k2 by (auto simp: genRowKeys_def c_def p_def split: if_splits)
  have "k1 = (if length (Columns row) \<noteq> 0
      then index_keys env (GetColumns env row) (GetTableID env row)
             (enumerate 0 (IndexColumnsOffset (TableInfo row))) else [])"
    using k1 genRowKeys_loop_returns [of env "GetColumns env row" "GetTableID env row" _ "[]" k1]
    by (simp add: c_def split: if_splits)
  moreover have "k2 = k1 @ (if length (PreColumns row) \<noteq> 0
      then index_keys env (GetPreColumns env row) (GetTableID env row)
             (enumerate 0 (IndexColumnsOffset (TableInfo row))) else [])"
    using k2 genRowKeys_loop_returns [of env "GetPreColumns env row" "GetTableID env row" _ k1 k2]
    by (simp add: p_def split: if_splits)
  ultimately have "k2 = row_index_keys env row" by (simp add: row_index_keys_def)
  with r show ?thesis by simp
qed

text \<open>
  C9. Whenever \<open>genRowKeys\<close> returns, it returns at least one key, and it returns for
  every row whose index offsets lie inside the column slices they are read with (an
  offset outside is a run-time panic of the index expression).
  The keys are those that the indexes give, on the columns and then on the previous
  columns; when no index gives a key the result is exactly one key, the table ID in 8
  bytes, big-endian. \<open>genKeyList\<close> gives a key, never empty, only when the index has a
  column and every column of it is present, has a value and is not generated; with the
  offsets in range it gives a key exactly then and returns nil otherwise.
\<close>

theorem genRowKeys_at_least_one_key:
  "(row_offsets_in_range env row \<longrightarrow> (\<exists>keys. genRowKeys env row = Inr keys)) \<and>
   (\<forall>keys. genRowKeys env row = Inr keys \<longrightarrow>
      keys \<noteq> [] \<and>
      keys = (if row_index_keys env row = [] then [PutUint64 (GetTableID env row)]
              else row_index_keys env row)) \<and>
   length (PutUint64 (GetTableID env row)) = 8 \<and>
   Uint64 (PutUint64 (GetTableID env row)) = GetTableID env row \<and>
   (\<forall>key. genKeyList env columns iIdx colIdx tableID = Inr (Some key) \<longrightarrow>
      key \<noteq> [] \<and> colIdx \<noteq> [] \<and>
      list_all (\<lambda>i. 0 \<le> i \<and> i < int (length columns) \<and> usable_column env (columns ! nat i))
        colIdx) \<and>
   (list_all (\<lambda>i. 0 \<le> i \<and> i < int (length columns)) colIdx \<longrightarrow>
      (if index_gives_key env columns colIdx
       then \<exists>key. genKeyList env columns iIdx colIdx tableID = Inr (Some key)
       else genKeyList env columns iIdx colIdx tableID = Inr None))"
proof -
  have ret: "row_offsets_in_range env row \<longrightarrow> (\<exists>keys. genRowKeys env row = Inr keys)"
    using genRowKeys_in_range [of env row] by simp
  have keys: "\<forall>keys. genRowKeys env row = Inr keys \<longrightarrow>
      keys \<noteq> [] \<and>
      keys = (if row_index_keys env row = [] then [PutUint64 (GetTableID env row)]
              else row_index_keys env row)"
    using genRowKeys_returns [of env row] by blast
  have len: "length (PutUint64 (GetTableID env row)) = 8"
    by (simp add: PutUint64_def)
  have only: "\<forall>key. genKeyList env columns iIdx colIdx tableID = Inr (Some key) \<longrightarrow>
      key \<noteq> [] \<and> colIdx \<noteq> [] \<and>
      list_all (\<lambda>i. 0 \<le> i \<and> i < int (length columns) \<and> usable_column env (columns ! nat i))
        colIdx"
  proof (intro allI impI)
    fix key assume k: "genKeyList env columns iIdx colIdx tableID = Inr (Some key)"
    then obtain k0 where k0: "genKeyList_loop env columns colIdx [] = Inr (Some k0)" "k0 \<noteq> []"
      by (auto simp: genKeyList_def split: sum.splits option.splits if_splits)
    have "colIdx \<noteq> []" using k0 by (cases colIdx) auto
    moreover have "key \<noteq> []" using k by (rule genKeyList_Some_nonempty)
    moreover have "list_all (\<lambda>i. 0 \<le> i \<and> i < int (length columns) \<and>
        usable_column env (columns ! nat i)) colIdx"
      using k0(1) genKeyList_loop_Some [of env columns colIdx "[]" k0] by simp
    ultimately show "key \<noteq> [] \<and> colIdx \<noteq> [] \<and>
      list_all (\<lambda>i. 0 \<le> i \<and> i < int (length columns) \<and> usable_column env (columns ! nat i))
        colIdx" by simp
  qed
  have one: "list_all (\<lambda>i. 0 \<le> i \<and> i < int (length columns)) colIdx \<longrightarrow>
      (if index_gives_key env columns colIdx
       then \<exists>key. genKeyList env columns iIdx colIdx tableID = Inr (Some key)
       else genKeyList env columns iIdx colIdx tableID = Inr None)"
  proof
    assume r: "list_all (\<lambda>i. 0 \<le> i \<and> i < int (length columns)) colIdx"
    show "if index_gives_key env columns colIdx
       then \<exists>key. genKeyList env columns iIdx colIdx tableID = Inr (Some key)
       else genKeyList env columns iIdx colIdx tableID = Inr None"
      using genKeyList_in_range [OF r, of env iIdx tableID]
      by (cases "index_gives_key env columns colIdx") auto
  qed
  show ?thesis using ret keys len only one by (simp only: Uint64_PutUint64 simp_thms)
qed

theorem genRowKeys_at_least_one_key_witness:
  "row_offsets_in_range
     \<lparr>ColumnValueString = (\<lambda>v. v), ToLower = (\<lambda>b. b), IsGeneratedColumn = (\<lambda>f. f),
      GetColumns = Columns, GetPreColumns = PreColumns, GetTableID = (\<lambda>row. 1)\<rparr>
     \<lparr>TableInfo = \<lparr>IndexColumnsOffset = [[0], [1]]\<rparr>,
      Columns = [Some \<lparr>Value = Some [97], Flag = False, Type = 3, Collation = ''''\<rparr>, None],
      PreColumns = []\<rparr> \<and>
   genRowKeys
     \<lparr>ColumnValueString = (\<lambda>v. v), ToLower = (\<lambda>b. b), IsGeneratedColumn = (\<lambda>f. f),
      GetColumns = Columns, GetPreColumns = PreColumns, GetTableID = (\<lambda>row. 1)\<rparr>
     \<lparr>TableInfo = \<lparr>IndexColumnsOffset = [[0], [1]]\<rparr>,
      Columns = [Some \<lparr>Value = Some [97], Flag = False, Type = 3, Collation = ''''\<rparr>, None],
      PreColumns = []\<rparr>
     = Inr [[97, 0, 0, 0, 0, 0, 0, 0, 0, 0, 0, 0, 0, 0, 0, 0, 0, 1]] \<and>
   genKeyList
     \<lparr>ColumnValueString = (\<lambda>v. v), ToLower = (\<lambda>b. b), IsGeneratedColumn = (\<lambda>f. f),
      GetColumns = Columns, GetPreColumns = PreColumns, GetTableID = (\<lambda>row. 1)\<rparr>
     [Some \<lparr>Value = Some [97], Flag = False, Type = 3, Collation = ''''\<rparr>, None] 0 [0] 1
     = Inr (Some [97, 0, 0, 0, 0, 0, 0, 0, 0, 0, 0, 0, 0, 0, 0, 0, 0, 1]) \<and>
   genKeyList
     \<lparr>ColumnValueString = (\<lambda>v. v), ToLower = (\<lambda>b. b), IsGeneratedColumn = (\<lambda>f. f),
      GetColumns = Columns, GetPreColumns = PreColumns, GetTableID = (\<lambda>row. 1)\<rparr>
     [Some \<lparr>Value = Some [97], Flag = False, Type = 3, Collation = ''''\<rparr>, None] 1 [1] 1
     = Inr None"
  using genRowKeys_at_least_one_key
    [where env = "\<lparr>ColumnValueString = (\<lambda>v. v), ToLower = (\<lambda>b. b),
          IsGeneratedColumn = (\<lambda>f. f), GetColumns = Columns, GetPreColumns = PreColumns,
          GetTableID = (\<lambda>row. 1)\<rparr>"
       and row = "\<lparr>TableInfo = \<lparr>IndexColumnsOffset = [[0], [1]]\<rparr>,
          Columns = [Some \<lparr>Value = Some [97], Flag = False, Type = 3, Collation = ''''\<rparr>, None],
          PreColumns = []\<rparr>"
       and columns = "[Some \<lparr>Value = Some [97], Flag = False, Type = 3, Collation = ''''\<rparr>, None]"
       and colIdx = "[0]" and iIdx = 0 and tableID = 1]
  by (simp add: row_offsets_in_range_def offsets_in_range_def genRowKeys_def genKeyList_def
      columnNeeds2LowerCase_def TypeVarchar_def TypeString_def TypeVarString_def
      TypeTinyBlob_def TypeMediumBlob_def TypeBlob_def TypeLongBlob_def PutUint64_def)

subsection \<open>ConflictKeys\<close>

lemma ConflictKeys_keys_fold:
  "ConflictKeys_keys keys (New32a, hashRes) =
     Inr (New32a, foldl map_store hashRes (map hash_key keys))"
  by (induction keys arbitrary: hashRes)
     (simp_all add: hasher_Write_def hasher_Reset_def New32a_def hash_key_def Let_def)

lemma ConflictKeys_rows_fold:
  "list_all (row_offsets_in_range env) rows \<Longrightarrow>
   ConflictKeys_rows env rows (New32a, hashRes) =
     Inr (New32a, foldl map_store hashRes (map hash_key (all_row_keys env rows)))"
proof (induction rows arbitrary: hashRes)
  case Nil
  then show ?case by (simp add: all_row_keys_def)
next
  case (Cons row rows)
  then have row: "row_offsets_in_range env row" and rows: "list_all (row_offsets_in_range env) rows"
    by simp_all
  obtain keys where keys: "genRowKeys env row = Inr keys"
    using genRowKeys_in_range [OF row] by simp
  have "all_row_keys env (row # rows) = keys @ all_row_keys env rows"
    using keys by (simp add: all_row_keys_def)
  then show ?case
    using keys Cons.IH [OF rows] by (simp add: ConflictKeys_keys_fold)
qed

lemma set_foldl_map_store:
  "set (foldl map_store m ks) = set m \<union> set ks"
  by (induction ks arbitrary: m) (auto simp: map_store_def)

lemma distinct_foldl_map_store:
  "distinct m \<Longrightarrow> distinct (foldl map_store m ks)"
  by (induction ks arbitrary: m) (simp_all add: map_store_def)

lemma hash_key_bound: "unat (hash_key key) < 2 ^ 32"
  unfolding hash_key_def by (rule ucast_32_64_bound)

lemma ConflictKeys_rows_returns:
  "ConflictKeys_rows env rows (New32a, hashRes) = Inr st \<Longrightarrow>
   st = (New32a, foldl map_store hashRes (map hash_key (all_row_keys env rows))) \<and>
   list_all (\<lambda>row. \<exists>keys. genRowKeys env row = Inr keys) rows"
proof (induction rows arbitrary: hashRes)
  case Nil
  then show ?case by (simp add: all_row_keys_def)
next
  case (Cons row rows)
  from Cons.prems obtain keys where keys: "genRowKeys env row = Inr keys"
    by (cases "genRowKeys env row") simp_all
  have "all_row_keys env (row # rows) = keys @ all_row_keys env rows"
    using keys by (simp add: all_row_keys_def)
  then show ?case
    using keys Cons.prems Cons.IH [of "foldl map_store hashRes (map hash_key keys)"]
    by (simp add: ConflictKeys_keys_fold)
qed

lemma all_row_keys_returned_nonempty:
  assumes "list_all (\<lambda>row. \<exists>keys. genRowKeys env row = Inr keys) rows" and "rows \<noteq> []"
  shows "all_row_keys env rows \<noteq> []"
proof -
  from assms obtain row rest keys where rows: "rows = row # rest" and "genRowKeys env row = Inr keys"
    by (cases rows) auto
  with genRowKeys_returns [of env row keys] show ?thesis by (simp add: all_row_keys_def)
qed

text \<open>
  C8. Whenever \<open>ConflictKeys\<close> returns, it returns nil exactly when the event has no
  rows, and otherwise a list that is not empty, has no element twice, and has only
  elements below \<open>2 ^ 32\<close>: its elements are the widened FNV-32a hashes of the keys of the
  rows. The same holds for every other order in which the map of the hashes may be
  visited. It returns for every event whose rows have their index offsets in range.
\<close>

theorem ConflictKeys_spec:
  "(list_all (row_offsets_in_range env) (Rows event) \<longrightarrow>
      (\<exists>r. ConflictKeys env event = Inr r)) \<and>
   (\<forall>r. ConflictKeys env event = Inr r \<longrightarrow>
      (r = None \<longleftrightarrow> Rows event = []) \<and>
      (\<forall>keys. r = Some keys \<longrightarrow>
         keys \<noteq> [] \<and> distinct keys \<and> (\<forall>k \<in> set keys. unat k < 2 ^ 32) \<and>
         set keys = hash_key ` set (all_row_keys env (Rows event)) \<and>
         (\<forall>keys'. mset keys' = mset keys \<longrightarrow>
            keys' \<noteq> [] \<and> distinct keys' \<and> (\<forall>k \<in> set keys'. unat k < 2 ^ 32))))"
proof -
  have ret: "\<exists>r. ConflictKeys env event = Inr r"
    if "list_all (row_offsets_in_range env) (Rows event)"
    using ConflictKeys_rows_fold [OF that, of "[]"] by (simp add: ConflictKeys_def)
  have res: "(r = None \<longleftrightarrow> Rows event = []) \<and>
      (\<forall>keys. r = Some keys \<longrightarrow>
         keys \<noteq> [] \<and> distinct keys \<and> (\<forall>k \<in> set keys. unat k < 2 ^ 32) \<and>
         set keys = hash_key ` set (all_row_keys env (Rows event)) \<and>
         (\<forall>keys'. mset keys' = mset keys \<longrightarrow>
            keys' \<noteq> [] \<and> distinct keys' \<and> (\<forall>k \<in> set keys'. unat k < 2 ^ 32)))"
    if r: "ConflictKeys env event = Inr r" for r
  proof (cases "Rows event = []")
    case True
    with r show ?thesis by (simp add: ConflictKeys_def)
  next
    case False
    define keys where "keys = foldl map_store [] (map hash_key (all_row_keys env (Rows event)))"
    from r False obtain st where st: "ConflictKeys_rows env (Rows event) (New32a, []) = Inr st"
      by (auto simp: ConflictKeys_def split: sum.splits)
    note rows = ConflictKeys_rows_returns [OF st]
    have rk: "r = Some keys"
      using r False st rows by (simp add: ConflictKeys_def keys_def)
    have s: "set keys = hash_key ` set (all_row_keys env (Rows event))"
      by (simp add: keys_def set_foldl_map_store)
    have d: "distinct keys"
      by (simp add: keys_def distinct_foldl_map_store)
    have ne: "keys \<noteq> []"
      using s all_row_keys_returned_nonempty [OF conjunct2 [OF rows] False] by auto
    have b: "\<forall>k \<in> set keys. unat k < 2 ^ 32"
      using s hash_key_bound by auto
    have perm: "keys' \<noteq> [] \<and> distinct keys' \<and> (\<forall>k \<in> set keys'. unat k < 2 ^ 32)"
      if "mset keys' = mset keys" for keys'
    proof -
      from that have "set keys' = set keys" by (rule mset_eq_setD)
      moreover from that have "distinct keys' = distinct keys" by (rule mset_eq_imp_distinct_iff)
      moreover from that ne have "keys' \<noteq> []" by auto
      ultimately show ?thesis using d b by simp
    qed
    show ?thesis using False rk ne d b s perm by simp
  qed
  show ?thesis using ret res by blast
qed

theorem ConflictKeys_spec_witness:
  "list_all (row_offsets_in_range
     \<lparr>ColumnValueString = (\<lambda>v. v), ToLower = (\<lambda>b. b), IsGeneratedColumn = (\<lambda>f. f),
      GetColumns = Columns, GetPreColumns = PreColumns, GetTableID = (\<lambda>row. 1)\<rparr>)
     [\<lparr>TableInfo = \<lparr>IndexColumnsOffset = []\<rparr>,
       Columns = [Some \<lparr>Value = Some [97], Flag = False, Type = 3, Collation = ''''\<rparr>],
       PreColumns = []\<rparr>,
      \<lparr>TableInfo = \<lparr>IndexColumnsOffset = []\<rparr>,
       Columns = [], PreColumns = []\<rparr>] \<and>
   ConflictKeys
     \<lparr>ColumnValueString = (\<lambda>v. v), ToLower = (\<lambda>b. b), IsGeneratedColumn = (\<lambda>f. f),
      GetColumns = Columns, GetPreColumns = PreColumns, GetTableID = (\<lambda>row. 1)\<rparr>
     \<lparr>Rows = [\<lparr>TableInfo = \<lparr>IndexColumnsOffset = []\<rparr>,
       Columns = [Some \<lparr>Value = Some [97], Flag = False, Type = 3, Collation = ''''\<rparr>],
       PreColumns = []\<rparr>,
      \<lparr>TableInfo = \<lparr>IndexColumnsOffset = []\<rparr>,
       Columns = [], PreColumns = []\<rparr>]\<rparr>
     = Inr (Some [2598465490])"
  using ConflictKeys_spec
    [of "\<lparr>ColumnValueString = (\<lambda>v. v), ToLower = (\<lambda>b. b), IsGeneratedColumn = (\<lambda>f. f),
          GetColumns = Columns, GetPreColumns = PreColumns, GetTableID = (\<lambda>row. 1)\<rparr>"
        "\<lparr>Rows = [\<lparr>TableInfo = \<lparr>IndexColumnsOffset = []\<rparr>,
           Columns = [Some \<lparr>Value = Some [97], Flag = False, Type = 3, Collation = ''''\<rparr>],
           PreColumns = []\<rparr>,
          \<lparr>TableInfo = \<lparr>IndexColumnsOffset = []\<rparr>,
           Columns = [], PreColumns = []\<rparr>]\<rparr>"]
  by (simp add: row_offsets_in_range_def offsets_in_range_def ConflictKeys_def genRowKeys_def
      PutUint64_def hasher_Write_def hasher_Reset_def Sum32_def New32a_def offset32_def
      prime32_def map_store_def all_row_keys_def hash_key_def)

section \<open>Properties of the operator\<close>

lemma operator_step_finished:
  "finished m \<Longrightarrow> finished (operator_step env m c)"
  by (cases c) (simp_all add: Check_def OnNodeRemove_def OnTaskRemoved_def Start_def PostFinish_def)

lemma operator_run_finished:
  "finished m \<Longrightarrow> finished (operator_run env m cs)"
  by (induction cs arbitrary: m) (simp_all add: operator_step_finished)

lemma finishing_call_finished:
  "finishing_call env m c \<Longrightarrow> finished (operator_step env m c)"
  by (cases c) (auto simp: Check_def OnNodeRemove_def OnTaskRemoved_def)

text \<open>
  C10. After a call of \<open>OnNodeRemove\<close> with the operator's destination, a call of
  \<open>OnTaskRemoved\<close>, or a call of \<open>Check\<close> from the destination that reports
  \<open>ComponentState_Working\<close>, whatever calls came before it and whatever calls come after
  it, \<open>IsFinished()\<close> is true and \<open>Schedule()\<close> returns nil.
\<close>

theorem finished_is_never_reset:
  assumes "finishing_call env (operator_run env m before) c"
  shows "IsFinished (operator_run env m (before @ c # after)) \<and>
         Schedule env (operator_run env m (before @ c # after)) = None"
proof -
  have split: "operator_run env m (before @ c # after)
      = operator_run env (operator_step env (operator_run env m before) c) after"
    by (induction before arbitrary: m) simp_all
  have "finished (operator_step env (operator_run env m before) c)"
    using assms by (rule finishing_call_finished)
  then have "finished (operator_run env m (before @ c # after))"
    unfolding split by (rule operator_run_finished)
  then show ?thesis by (simp add: IsFinished_def Schedule_def)
qed

theorem finished_is_never_reset_witness:
  "Schedule
     \<lparr>ComponentState_Working = 2, NewAddMaintainerMessage = Pair,
       BindChangefeedToNode = (\<lambda>d a b c. c # d),
       MarkMaintainerReplicating = (\<lambda>d c. d)\<rparr>
     (operator_run
        \<lparr>ComponentState_Working = 2, NewAddMaintainerMessage = Pair,
       BindChangefeedToNode = (\<lambda>d a b c. c # d),
       MarkMaintainerReplicating = (\<lambda>d c. d)\<rparr>
        (NewAddMaintainerOperator [] (7::nat) ''n1'') [Call_Start, Call_Schedule])
     = Some (7, ''n1'') \<and>
   IsFinished
     (operator_run
        \<lparr>ComponentState_Working = 2, NewAddMaintainerMessage = Pair,
       BindChangefeedToNode = (\<lambda>d a b c. c # d),
       MarkMaintainerReplicating = (\<lambda>d c. d)\<rparr>
        (NewAddMaintainerOperator [] (7::nat) ''n1'')
        ([Call_Start, Call_Schedule] @ Call_Check ''n1'' \<lparr>State = 2\<rparr> #
           [Call_Check ''n2'' \<lparr>State = 0\<rparr>, Call_PostFinish])) \<and>
   Schedule
     \<lparr>ComponentState_Working = 2, NewAddMaintainerMessage = Pair,
       BindChangefeedToNode = (\<lambda>d a b c. c # d),
       MarkMaintainerReplicating = (\<lambda>d c. d)\<rparr>
     (operator_run
        \<lparr>ComponentState_Working = 2, NewAddMaintainerMessage = Pair,
       BindChangefeedToNode = (\<lambda>d a b c. c # d),
       MarkMaintainerReplicating = (\<lambda>d c. d)\<rparr>
        (NewAddMaintainerOperator [] (7::nat) ''n1'')
        ([Call_Start, Call_Schedule] @ Call_Check ''n1'' \<lparr>State = 2\<rparr> #
           [Call_Check ''n2'' \<lparr>State = 0\<rparr>, Call_PostFinish])) = None"
  using finished_is_never_reset
    [of "\<lparr>ComponentState_Working = 2, NewAddMaintainerMessage = Pair,
       BindChangefeedToNode = (\<lambda>d a b c. c # d),
       MarkMaintainerReplicating = (\<lambda>d c. d)\<rparr>"
        "NewAddMaintainerOperator [] (7::nat) ''n1''" "[Call_Start, Call_Schedule]"
        "Call_Check ''n1'' \<lparr>State = 2\<rparr>"
        "[Call_Check ''n2'' \<lparr>State = 0\<rparr>, Call_PostFinish]"]
  by (simp add: NewAddMaintainerOperator_def Start_def Schedule_def)

section \<open>Properties of the dynamic stream\<close>

subsection \<open>Batches\<close>

lemma take_takeWhile_prefix:
  "take k (takeWhile P q) @ drop (length (take k (takeWhile P q))) q = q"
proof -
  have "take k (takeWhile P q) = take (min k (length (takeWhile P q))) q"
    by (metis takeWhile_eq_take take_take)
  then show ?thesis by (metis append_take_drop_id length_take min.commute min.left_idem
      length_takeWhile_le min.absorb2 min.assoc)
qed

lemma next_batch_prefix:
  "next_batch h n q @ drop (length (next_batch h n q)) q = q"
proof (cases q)
  case Nil
  then show ?thesis by (simp add: next_batch_def)
next
  case (Cons x rest)
  then have "next_batch h n q =
      take (if Property (GetType h (snd x)) = NonBatchable then 1 else nat (sint n))
        (takeWhile (\<lambda>y. GetType h (snd y) = GetType h (snd x)) q)"
    by (simp only: next_batch_def list.case Let_def)
  then show ?thesis by (simp only: take_takeWhile_prefix)
qed

subsection \<open>Consequences of the order invariant\<close>

lemma tag_inj:
  "distinct (map fst A) \<Longrightarrow> x \<in> set A \<Longrightarrow> y \<in> set A \<Longrightarrow> fst x = fst y \<Longrightarrow> x = y"
  by (metis distinct_map inj_onD)

lemma oi_entries:
  assumes "order_inv h H Q A D n"
    and "x \<in> set (H p) \<or> x \<in> set (Q p)"
  shows "x \<in> set A \<and> Path h (snd x) = p \<and> fst x \<notin> D"
proof -
  from assms(2) have "x \<in> set (H p @ Q p)" by auto
  with assms(1) have "x \<in> set (filter (\<lambda>x. Path h (snd x) = p \<and> fst x \<notin> D) A)"
    by (simp add: order_inv_def)
  then show ?thesis by simp
qed

lemma oi_distinct:
  assumes "order_inv h H Q A D n"
  shows "distinct (map fst (H p @ Q p))"
proof -
  from assms have "distinct (map fst (filter (\<lambda>x. Path h (snd x) = p \<and> fst x \<notin> D) A))"
    unfolding order_inv_def by (simp add: distinct_map_filter)
  with assms show ?thesis by (simp add: order_inv_def)
qed

lemma oi_handled_not_queued:
  assumes oi: "order_inv h H Q A D n" and "x \<in> set (H p')" and "y \<in> set (Q p)"
  shows "fst x \<noteq> fst y"
proof
  assume eq: "fst x = fst y"
  have x: "x \<in> set A" "Path h (snd x) = p'"
    using oi_entries [OF oi, of x p'] assms(2) by simp_all
  have y: "y \<in> set A" "Path h (snd y) = p"
    using oi_entries [OF oi, of y p] assms(3) by simp_all
  from oi have "distinct (map fst A)" by (simp add: order_inv_def)
  from tag_inj [OF this x(1) y(1) eq] have xy: "x = y" .
  with x y have "p' = p" by simp
  with assms(2) xy have "y \<in> set (H p)" by simp
  with assms(3) oi_distinct [OF oi, of p] show False
    by (auto simp: distinct_map)
qed

lemma oi_queues_apart:
  assumes oi: "order_inv h H Q A D n" and "x \<in> set (Q p')" and "y \<in> set (Q p)"
    and "p' \<noteq> p"
  shows "fst x \<noteq> fst y"
proof
  assume eq: "fst x = fst y"
  have x: "x \<in> set A" "Path h (snd x) = p'"
    using oi_entries [OF oi, of x p'] assms(2) by simp_all
  have y: "y \<in> set A" "Path h (snd y) = p"
    using oi_entries [OF oi, of y p] assms(3) by simp_all
  from oi have "distinct (map fst A)" by (simp add: order_inv_def)
  from tag_inj [OF this x(1) y(1) eq] x y assms(4) show False by simp
qed

lemma filter_tags:
  assumes "distinct (map fst Q)"
  shows "filter (\<lambda>x. fst x \<notin> fst ` set (filter c Q)) Q = filter (\<lambda>x. \<not> c x) Q"
proof (rule filter_cong [OF refl])
  fix x assume x: "x \<in> set Q"
  show "(fst x \<notin> fst ` set (filter c Q)) = (\<not> c x)"
  proof
    assume "fst x \<notin> fst ` set (filter c Q)"
    with x show "\<not> c x" by force
  next
    assume nc: "\<not> c x"
    show "fst x \<notin> fst ` set (filter c Q)"
    proof
      assume "fst x \<in> fst ` set (filter c Q)"
      then obtain y where y: "y \<in> set Q" "c y" "fst x = fst y" by auto
      from tag_inj [OF assms x y(1) y(3)] y(2) nc show False by simp
    qed
  qed
qed

lemma filter_prefix_tags:
  assumes "distinct (map fst (b @ r))"
  shows "filter (\<lambda>x. fst x \<notin> fst ` set b) (b @ r) = r"
proof -
  have "filter (\<lambda>x. fst x \<notin> fst ` set b) b = []"
    by (auto simp: filter_empty_conv)
  moreover have "filter (\<lambda>x. fst x \<notin> fst ` set b) r = r"
    using assms by (intro filter_True) auto
  ultimately show ?thesis by simp
qed

lemma drop_tags:
  assumes oi: "order_inv h H Q A D n" and X: "X \<subseteq> fst ` set (Q p)"
  shows "filter (\<lambda>x. Path h (snd x) = p' \<and> fst x \<notin> D \<union> X) A =
         H p' @ (if p' = p then filter (\<lambda>x. fst x \<notin> X) (Q p) else Q p')"
proof -
  have "filter (\<lambda>x. Path h (snd x) = p' \<and> fst x \<notin> D \<union> X) A =
        filter (\<lambda>x. fst x \<notin> X) (filter (\<lambda>x. Path h (snd x) = p' \<and> fst x \<notin> D) A)"
    by (simp add: conj_commute conj_left_commute)
  also have "\<dots> = filter (\<lambda>x. fst x \<notin> X) (H p') @ filter (\<lambda>x. fst x \<notin> X) (Q p')"
    using oi by (simp add: order_inv_def flip: filter_append)
  also have "filter (\<lambda>x. fst x \<notin> X) (H p') = H p'"
  proof (rule filter_True, rule ballI, rule ccontr)
    fix x assume x: "x \<in> set (H p')" and "\<not> fst x \<notin> X"
    with X obtain y where "y \<in> set (Q p)" "fst x = fst y" by auto
    with oi_handled_not_queued [OF oi x] show False by blast
  qed
  also have "filter (\<lambda>x. fst x \<notin> X) (Q p') =
      (if p' = p then filter (\<lambda>x. fst x \<notin> X) (Q p) else Q p')"
  proof (cases "p' = p")
    case True
    then show ?thesis by simp
  next
    case False
    have "filter (\<lambda>x. fst x \<notin> X) (Q p') = Q p'"
    proof (rule filter_True, rule ballI, rule ccontr)
      fix x assume x: "x \<in> set (Q p')" and "\<not> fst x \<notin> X"
      with X obtain y where "y \<in> set (Q p)" "fst x = fst y" by auto
      with oi_queues_apart [OF oi x _ False] show False by blast
    qed
    with False show ?thesis by simp
  qed
  finally show ?thesis .
qed

subsection \<open>The transitions keep the order invariant\<close>

lemma oi_drop_new:
  assumes oi: "order_inv h H Q A D n"
  shows "order_inv h H Q (A @ [(n, e)]) (insert n D) (Suc n)"
proof -
  have fresh: "\<And>x. x \<in> set A \<Longrightarrow> fst x \<noteq> n"
    using oi by (auto simp: order_inv_def)
  have "filter (\<lambda>x. Path h (snd x) = p \<and> fst x \<notin> insert n D) (A @ [(n, e)]) =
        filter (\<lambda>x. Path h (snd x) = p \<and> fst x \<notin> D) A" for p
  proof -
    have "filter (\<lambda>x. Path h (snd x) = p \<and> fst x \<notin> insert n D) A =
          filter (\<lambda>x. Path h (snd x) = p \<and> fst x \<notin> D) A"
      by (rule filter_cong [OF refl]) (use fresh in auto)
    then show ?thesis by simp
  qed
  moreover have "n \<notin> fst ` set A" using fresh by force
  ultimately show ?thesis
    using oi by (auto simp: order_inv_def less_Suc_eq)
qed

lemma oi_enqueue:
  assumes oi: "order_inv h H Q A D n"
    and q: "Q' (Path h e) = filter (\<lambda>x. \<not> c x) (Q (Path h e)) @ [(n, e)]"
    and q': "\<And>p. p \<noteq> Path h e \<Longrightarrow> Q' p = Q p"
  shows "order_inv h H Q' (A @ [(n, e)]) (D \<union> fst ` set (filter c (Q (Path h e)))) (Suc n)"
proof -
  define X where "X = fst ` set (filter c (Q (Path h e)))"
  have X: "X \<subseteq> fst ` set (Q (Path h e))" by (auto simp: X_def)
  have old: "\<And>x. x \<in> set A \<Longrightarrow> fst x < n"
    and oldd: "\<And>m. m \<in> D \<Longrightarrow> m < n"
    using oi by (auto simp: order_inv_def)
  have Xold: "\<And>m. m \<in> X \<Longrightarrow> m < n"
    using X oi_entries [OF oi] old by blast
  have new: "n \<notin> D \<union> X" using oldd Xold by blast
  have dq: "distinct (map fst (Q (Path h e)))"
    using oi_distinct [OF oi, of "Path h e"] by simp
  have main: "H p @ Q' p = filter (\<lambda>x. Path h (snd x) = p \<and> fst x \<notin> D \<union> X) (A @ [(n, e)])" for p
  proof -
    have "filter (\<lambda>x. Path h (snd x) = p \<and> fst x \<notin> D \<union> X) (A @ [(n, e)]) =
        filter (\<lambda>x. Path h (snd x) = p \<and> fst x \<notin> D \<union> X) A @
        (if Path h e = p then [(n, e)] else [])"
      using new by simp
    also have "\<dots> = H p @
        (if p = Path h e then filter (\<lambda>x. fst x \<notin> X) (Q (Path h e)) else Q p) @
        (if Path h e = p then [(n, e)] else [])"
      by (simp only: drop_tags [OF oi X] append_assoc)
    also have "\<dots> = H p @ Q' p"
      using q q' [of p] filter_tags [OF dq, of c] by (auto simp: X_def)
    finally show ?thesis by simp
  qed
  have "n \<notin> fst ` set A" using old by force
  then have "distinct (map fst (A @ [(n, e)]))"
    using oi by (simp add: order_inv_def)
  moreover have "\<forall>x \<in> set (A @ [(n, e)]). fst x < Suc n"
    using old by (auto simp: less_Suc_eq)
  moreover have "\<forall>m \<in> D \<union> X. m < Suc n"
    using oldd Xold by (auto simp: less_Suc_eq)
  ultimately show ?thesis using main by (simp add: order_inv_def X_def)
qed

lemma oi_handle:
  assumes oi: "order_inv h H Q A D n"
    and hp: "H' p = H p @ b" and hp': "\<And>p'. p' \<noteq> p \<Longrightarrow> H' p' = H p'"
    and q: "Q' p = drop (length b) (Q p)"
    and b: "b @ drop (length b) (Q p) = Q p"
    and q': "\<And>p'. p' \<noteq> p \<Longrightarrow> Q' p' = Q p'"
  shows "order_inv h H' Q' A D n"
proof -
  have "H' p' @ Q' p' = H p' @ Q p'" for p'
    using hp hp' [of p'] q q' [of p'] b by (cases "p' = p") simp_all
  then show ?thesis using oi by (simp add: order_inv_def)
qed

lemma oi_drop_prefix:
  assumes oi: "order_inv h H Q A D n"
    and q: "Q' p = drop (length b) (Q p)"
    and b: "b @ drop (length b) (Q p) = Q p"
    and q': "\<And>p'. p' \<noteq> p \<Longrightarrow> Q' p' = Q p'"
  shows "order_inv h H Q' A (D \<union> fst ` set b) n"
proof -
  have bq: "set b \<subseteq> set (Q p)" by (metis b set_append sup_ge1)
  then have X: "fst ` set b \<subseteq> fst ` set (Q p)" by auto
  have "distinct (map fst (b @ drop (length b) (Q p)))"
    using oi_distinct [OF oi, of p] by (simp only: b) simp
  from filter_prefix_tags [OF this]
  have f: "filter (\<lambda>x. fst x \<notin> fst ` set b) (Q p) = drop (length b) (Q p)"
    by (simp only: b)
  have main: "H p' @ Q' p' =
      filter (\<lambda>x. Path h (snd x) = p' \<and> fst x \<notin> D \<union> fst ` set b) A" for p'
    using drop_tags [OF oi X, where p' = p'] q q' [of p'] f by simp
  have "\<forall>m \<in> D \<union> fst ` set b. m < n"
  proof
    fix m assume "m \<in> D \<union> fst ` set b"
    then consider "m \<in> D" | x where "x \<in> set (Q p)" "m = fst x" using bq by auto
    then show "m < n"
    proof cases
      case 1
      with oi show ?thesis by (simp add: order_inv_def)
    next
      case 2
      with oi_entries [OF oi, of x p] oi show ?thesis by (simp add: order_inv_def)
    qed
  qed
  then show ?thesis using main oi by (simp add: order_inv_def)
qed

lemma oi_drop_all:
  assumes oi: "order_inv h H Q A D n"
  shows "order_inv h H (\<lambda>p. [])  A
           (D \<union> fst ` set (filter (\<lambda>x. x \<in> set (Q (Path h (snd x)))) A)) n"
proof -
  define X where "X = fst ` set (filter (\<lambda>x. x \<in> set (Q (Path h (snd x)))) A)"
  have main: "H p @ [] = filter (\<lambda>x. Path h (snd x) = p \<and> fst x \<notin> D \<union> X) A" for p
  proof -
    have "filter (\<lambda>x. Path h (snd x) = p \<and> fst x \<notin> D \<union> X) A =
        filter (\<lambda>x. fst x \<notin> X) (filter (\<lambda>x. Path h (snd x) = p \<and> fst x \<notin> D) A)"
      by (simp add: conj_commute conj_left_commute)
    also have "\<dots> = filter (\<lambda>x. fst x \<notin> X) (H p) @ filter (\<lambda>x. fst x \<notin> X) (Q p)"
      using oi by (simp add: order_inv_def flip: filter_append)
    also have "filter (\<lambda>x. fst x \<notin> X) (H p) = H p"
    proof (rule filter_True, rule ballI, rule ccontr)
      fix x assume x: "x \<in> set (H p)" and "\<not> fst x \<notin> X"
      then obtain y where "y \<in> set (Q (Path h (snd y)))" "fst x = fst y"
        by (auto simp: X_def)
      with oi_handled_not_queued [OF oi x] show False by blast
    qed
    also have "filter (\<lambda>x. fst x \<notin> X) (Q p) = []"
    proof -
      have "fst x \<in> X" if "x \<in> set (Q p)" for x
      proof -
        from oi_entries [OF oi, of x p] that
        have "x \<in> set A" "Path h (snd x) = p" by simp_all
        with that show ?thesis by (auto simp: X_def)
      qed
      then show ?thesis by (auto simp: filter_empty_conv)
    qed
    finally show ?thesis by simp
  qed
  have "\<forall>m \<in> D \<union> X. m < n"
    using oi by (auto simp: order_inv_def X_def)
  then show ?thesis
    using main oi by (simp add: order_inv_def X_def)
qed

lemma oi_queue_not_in:
  assumes "order_inv h H Q A D n" and "x \<in> set (Q p)"
  shows "fst x \<notin> D"
  using oi_entries [OF assms(1), of x p] assms(2) by simp

subsection \<open>The abstract transitions keep the invariant\<close>

lemma same_calls:
  assumes "Handle_calls s' = Handle_calls s"
  shows "returned_entries s' = returned_entries s" and "handled_entries s' = handled_entries s"
    and "panicked_entries s' = panicked_entries s"
  using assms
  by (simp_all add: fun_eq_iff returned_entries_def handled_entries_def panicked_entries_def)

lemma inv_frame:
  assumes "stream_inv h s"
    and "Handle_calls s' = Handle_calls s" and "admitted s' = admitted s"
    and "dropped s' = dropped s" and "next_id s' = next_id s"
    and "\<And>p. queued_entries s' p = queued_entries s p"
  shows "stream_inv h s'"
proof -
  have "queued_entries s' = queued_entries s" by (rule ext) (rule assms(6))
  with assms(1,3-5) same_calls [OF assms(2)] show ?thesis
    by (simp add: stream_inv_def)
qed

lemma inv_queue_not_dropped:
  assumes "stream_inv h s" and "x \<in> set (queued_entries s p)"
  shows "fst x \<notin> dropped s" and "fst x \<notin> fst ` set (panicked_entries s)"
proof -
  from assms(1) have "order_inv h (returned_entries s) (queued_entries s) (admitted s)
      (dropped s) (next_id s)" by (simp add: stream_inv_def)
  from oi_queue_not_in [OF this assms(2)] show "fst x \<notin> dropped s" .
  with assms(1) show "fst x \<notin> fst ` set (panicked_entries s)"
    by (auto simp: stream_inv_def)
qed

lemma inv_drop_new:
  assumes inv: "stream_inv h s"
    and hc: "Handle_calls s' = Handle_calls s"
    and ad: "admitted s' = admitted s @ [(next_id s, e)]"
    and dr: "dropped s' = insert (next_id s) (dropped s)"
    and nx: "next_id s' = Suc (next_id s)"
    and q: "\<And>p. queued_entries s' p = queued_entries s p"
  shows "stream_inv h s'"
proof -
  have qe: "queued_entries s' = queued_entries s" by (rule ext) (rule q)
  note obs = same_calls [OF hc]
  from inv have i1: "order_inv h (returned_entries s) (queued_entries s) (admitted s)
      (dropped s) (next_id s)"
    and i2: "order_inv h (handled_entries s) (queued_entries s) (admitted s)
      (dropped s - fst ` set (panicked_entries s)) (next_id s)"
    and ps: "fst ` set (panicked_entries s) \<subseteq> dropped s"
    by (simp_all add: stream_inv_def)
  from i1 have "next_id s \<notin> dropped s" by (auto simp: order_inv_def)
  with ps have "insert (next_id s) (dropped s) - fst ` set (panicked_entries s) =
      insert (next_id s) (dropped s - fst ` set (panicked_entries s))" by auto
  with oi_drop_new [OF i1, of e] oi_drop_new [OF i2, of e] ps show ?thesis
    by (auto simp: stream_inv_def qe obs ad dr nx)
qed

lemma inv_enqueue:
  assumes inv: "stream_inv h s"
    and hc: "Handle_calls s' = Handle_calls s"
    and ad: "admitted s' = admitted s @ [(next_id s, e)]"
    and dr: "dropped s' = dropped s \<union> fst ` set (filter c (queued_entries s (Path h e)))"
    and nx: "next_id s' = Suc (next_id s)"
    and q: "queued_entries s' (Path h e) =
            filter (\<lambda>x. \<not> c x) (queued_entries s (Path h e)) @ [(next_id s, e)]"
    and q': "\<And>p. p \<noteq> Path h e \<Longrightarrow> queued_entries s' p = queued_entries s p"
  shows "stream_inv h s'"
proof -
  define X where "X = fst ` set (filter c (queued_entries s (Path h e)))"
  note obs = same_calls [OF hc]
  from inv have i1: "order_inv h (returned_entries s) (queued_entries s) (admitted s)
      (dropped s) (next_id s)"
    and i2: "order_inv h (handled_entries s) (queued_entries s) (admitted s)
      (dropped s - fst ` set (panicked_entries s)) (next_id s)"
    and ps: "fst ` set (panicked_entries s) \<subseteq> dropped s"
    by (simp_all add: stream_inv_def)
  have "X \<inter> fst ` set (panicked_entries s) = {}"
    using inv_queue_not_dropped(2) [OF inv] by (auto simp: X_def)
  then have d2: "(dropped s \<union> X) - fst ` set (panicked_entries s) =
      (dropped s - fst ` set (panicked_entries s)) \<union> X" by auto
  show ?thesis
    using oi_enqueue [OF i1, of "queued_entries s'" e c, OF q q']
      oi_enqueue [OF i2, of "queued_entries s'" e c, OF q q'] ps d2
    by (auto simp: stream_inv_def obs ad dr nx X_def)
qed

lemma inv_handle_returns:
  assumes inv: "stream_inv h s"
    and hc: "Handle_calls s' = Handle_calls s @ [(p, d, b, Returns a)]"
    and ad: "admitted s' = admitted s" and dr: "dropped s' = dropped s"
    and nx: "next_id s' = next_id s"
    and q: "queued_entries s' p = drop (length b) (queued_entries s p)"
    and b: "b @ drop (length b) (queued_entries s p) = queued_entries s p"
    and q': "\<And>p'. p' \<noteq> p \<Longrightarrow> queued_entries s' p' = queued_entries s p'"
  shows "stream_inv h s'"
proof -
  have pe: "panicked_entries s' = panicked_entries s"
    by (simp add: panicked_entries_def hc)
  from inv have i1: "order_inv h (returned_entries s) (queued_entries s) (admitted s)
      (dropped s) (next_id s)"
    and i2: "order_inv h (handled_entries s) (queued_entries s) (admitted s)
      (dropped s - fst ` set (panicked_entries s)) (next_id s)"
    and ps: "fst ` set (panicked_entries s) \<subseteq> dropped s"
    by (simp_all add: stream_inv_def)
  have "order_inv h (returned_entries s') (queued_entries s') (admitted s) (dropped s) (next_id s)"
    by (rule oi_handle [OF i1 _ _ q b q']) (simp_all add: returned_entries_def hc)
  moreover have "order_inv h (handled_entries s') (queued_entries s') (admitted s)
      (dropped s - fst ` set (panicked_entries s)) (next_id s)"
    by (rule oi_handle [OF i2 _ _ q b q']) (simp_all add: handled_entries_def hc)
  ultimately show ?thesis using ps by (simp add: stream_inv_def pe ad dr nx)
qed

lemma inv_handle_panics:
  assumes inv: "stream_inv h s"
    and hc: "Handle_calls s' = Handle_calls s @ [(p, d, b, Panics)]"
    and ad: "admitted s' = admitted s" and dr: "dropped s' = dropped s \<union> fst ` set b"
    and nx: "next_id s' = next_id s"
    and q: "queued_entries s' p = drop (length b) (queued_entries s p)"
    and b: "b @ drop (length b) (queued_entries s p) = queued_entries s p"
    and q': "\<And>p'. p' \<noteq> p \<Longrightarrow> queued_entries s' p' = queued_entries s p'"
  shows "stream_inv h s'"
proof -
  have pe: "panicked_entries s' = panicked_entries s @ b"
    by (simp add: panicked_entries_def hc)
  have re: "returned_entries s' = returned_entries s"
    by (simp add: fun_eq_iff returned_entries_def hc)
  from inv have i1: "order_inv h (returned_entries s) (queued_entries s) (admitted s)
      (dropped s) (next_id s)"
    and i2: "order_inv h (handled_entries s) (queued_entries s) (admitted s)
      (dropped s - fst ` set (panicked_entries s)) (next_id s)"
    and ps: "fst ` set (panicked_entries s) \<subseteq> dropped s"
    by (simp_all add: stream_inv_def)
  have bq: "set b \<subseteq> set (queued_entries s p)" by (metis b set_append sup_ge1)
  then have "fst ` set b \<inter> dropped s = {}"
    using inv_queue_not_dropped(1) [OF inv] by auto
  then have d2: "(dropped s \<union> fst ` set b) - (fst ` set (panicked_entries s) \<union> fst ` set b) =
      dropped s - fst ` set (panicked_entries s)" by auto
  have "order_inv h (returned_entries s) (queued_entries s') (admitted s)
      (dropped s \<union> fst ` set b) (next_id s)"
    by (rule oi_drop_prefix [OF i1 q b q'])
  moreover have "order_inv h (handled_entries s') (queued_entries s') (admitted s)
      (dropped s - fst ` set (panicked_entries s)) (next_id s)"
    by (rule oi_handle [OF i2 _ _ q b q']) (simp_all add: handled_entries_def hc)
  ultimately show ?thesis
    using ps d2 by (auto simp: stream_inv_def pe re ad dr nx image_Un)
qed

lemma inv_drop_queue:
  assumes inv: "stream_inv h s"
    and hc: "Handle_calls s' = Handle_calls s"
    and ad: "admitted s' = admitted s"
    and dr: "dropped s' = dropped s \<union> fst ` set (queued_entries s p)"
    and nx: "next_id s' = next_id s"
    and q: "queued_entries s' p = []"
    and q': "\<And>p'. p' \<noteq> p \<Longrightarrow> queued_entries s' p' = queued_entries s p'"
  shows "stream_inv h s'"
proof -
  note obs = same_calls [OF hc]
  from inv have i1: "order_inv h (returned_entries s) (queued_entries s) (admitted s)
      (dropped s) (next_id s)"
    and i2: "order_inv h (handled_entries s) (queued_entries s) (admitted s)
      (dropped s - fst ` set (panicked_entries s)) (next_id s)"
    and ps: "fst ` set (panicked_entries s) \<subseteq> dropped s"
    by (simp_all add: stream_inv_def)
  have qd: "queued_entries s' p = drop (length (queued_entries s p)) (queued_entries s p)"
    by (simp add: q)
  have b: "queued_entries s p @ drop (length (queued_entries s p)) (queued_entries s p)
      = queued_entries s p" by simp
  have "fst ` set (queued_entries s p) \<inter> fst ` set (panicked_entries s) = {}"
    using inv_queue_not_dropped(2) [OF inv] by auto
  then have d2: "(dropped s \<union> fst ` set (queued_entries s p)) - fst ` set (panicked_entries s) =
      (dropped s - fst ` set (panicked_entries s)) \<union> fst ` set (queued_entries s p)" by auto
  show ?thesis
    using oi_drop_prefix [OF i1 qd b q'] oi_drop_prefix [OF i2 qd b q'] ps d2
    by (auto simp: stream_inv_def obs ad dr nx)
qed

lemma inv_drop_all:
  assumes inv: "stream_inv h s"
    and hc: "Handle_calls s' = Handle_calls s"
    and ad: "admitted s' = admitted s"
    and dr: "dropped s' = dropped s \<union> fst ` set (filter (still_queued h s) (admitted s))"
    and nx: "next_id s' = next_id s"
    and q: "\<And>p. queued_entries s' p = []"
  shows "stream_inv h s'"
proof -
  define X where "X = fst ` set (filter (still_queued h s) (admitted s))"
  have sq: "still_queued h s = (\<lambda>x. x \<in> set (queued_entries s (Path h (snd x))))"
    by (rule ext) (simp add: still_queued_def queued_entries_def split: option.splits)
  have qe: "queued_entries s' = (\<lambda>p. [])" by (rule ext) (rule q)
  note obs = same_calls [OF hc]
  from inv have i1: "order_inv h (returned_entries s) (queued_entries s) (admitted s)
      (dropped s) (next_id s)"
    and i2: "order_inv h (handled_entries s) (queued_entries s) (admitted s)
      (dropped s - fst ` set (panicked_entries s)) (next_id s)"
    and ps: "fst ` set (panicked_entries s) \<subseteq> dropped s"
    by (simp_all add: stream_inv_def)
  have "X \<inter> fst ` set (panicked_entries s) = {}"
    using inv_queue_not_dropped(2) [OF inv] by (auto simp: X_def sq)
  then have d2: "(dropped s \<union> X) - fst ` set (panicked_entries s) =
      (dropped s - fst ` set (panicked_entries s)) \<union> X" by auto
  show ?thesis
    using oi_drop_all [OF i1] oi_drop_all [OF i2] ps d2
    by (auto simp: stream_inv_def obs qe ad dr nx X_def sq)
qed

subsection \<open>The operations keep the invariant\<close>

lemma inv_init: "stream_inv h (newDynamicStreamImpl n h option)"
  by (simp add: stream_inv_def order_inv_def newDynamicStreamImpl_def handled_entries_def
      returned_entries_def panicked_entries_def queued_entries_def)

lemma inv_Start: "stream_inv h s \<Longrightarrow> stream_inv h (stream_Start s)"
  by (erule inv_frame) (simp_all add: stream_Start_def queued_entries_def)

lemma inv_SetAreaSettings: "stream_inv h s \<Longrightarrow> stream_inv h (SetAreaSettings s a st)"
  by (erule inv_frame) (simp_all add: SetAreaSettings_def queued_entries_def)

lemma inv_wake: "stream_inv h s \<Longrightarrow> stream_inv h (wake s p)"
  by (erule inv_frame) (simp_all add: wake_def queued_entries_def split: option.splits)

lemma inv_migrate: "stream_inv h s \<Longrightarrow> stream_inv h (migrate s p w)"
  by (erule inv_frame) (simp_all add: migrate_def queued_entries_def split: option.splits)

lemma inv_pause_path: "stream_inv h s \<Longrightarrow> stream_inv h (pause_path s p)"
  by (erule inv_frame) (simp_all add: pause_path_def queued_entries_def split: option.splits)

lemma inv_resume_path: "stream_inv h s \<Longrightarrow> stream_inv h (resume_path s p)"
  by (erule inv_frame) (simp_all add: resume_path_def queued_entries_def split: option.splits)

lemma inv_AddPath:
  "stream_inv h s \<Longrightarrow> AddPath h s w p d st = Inr s' \<Longrightarrow> stream_inv h s'"
  by (erule inv_frame)
     (auto simp: AddPath_def queued_entries_def Let_def split: if_splits option.splits)

lemma inv_RemovePath:
  "stream_inv h s \<Longrightarrow> RemovePath h s p = Inr s' \<Longrightarrow> stream_inv h s'"
  by (erule inv_drop_queue [where p = p])
     (force simp: RemovePath_def queued_entries_def Let_def split: if_splits option.splits)+

lemma inv_dispatch: "stream_inv h s \<Longrightarrow> stream_inv h (dispatch h s w p result)"
proof (cases "closed s \<or> paths s p = None \<or> owner_worker (the (paths s p)) \<noteq> w \<or>
    awaiting (the (paths s p)) \<or> queue (the (paths s p)) = []")
  case True
  then have "dispatch h s w p result = s"
    by (auto simp: dispatch_def split: option.splits)
  then show "stream_inv h s \<Longrightarrow> ?thesis" by simp
next
  case False
  then obtain ps where ps: "paths s p = Some ps" by auto
  define b where "b = next_batch h (BatchCount (stream_option s)) (queue ps)"
  have prefix: "b @ drop (length b) (queued_entries s p) = queued_entries s p"
    by (simp add: b_def queued_entries_def ps next_batch_prefix)
  assume inv: "stream_inv h s"
  show ?thesis
  proof (cases result)
    case (Returns a)
    show ?thesis
      by (rule inv_handle_returns [OF inv, where p = p and d = "path_dest ps" and b = b
            and a = a, OF _ _ _ _ _ prefix])
         (use False ps Returns in \<open>simp_all add: dispatch_def queued_entries_def Let_def b_def\<close>)
  next
    case Panics
    show ?thesis
      by (rule inv_handle_panics [OF inv, where p = p and d = "path_dest ps" and b = b,
            OF _ _ _ _ _ prefix])
         (use False ps Panics in \<open>simp_all add: dispatch_def queued_entries_def Let_def b_def\<close>)
  qed
qed

lemma inv_Close: "stream_inv h s \<Longrightarrow> stream_inv h (stream_Close h s)"
proof (cases "closed s")
  case True
  then show "stream_inv h s \<Longrightarrow> ?thesis" by (simp add: stream_Close_def)
next
  case False
  assume inv: "stream_inv h s"
  show ?thesis
    by (rule inv_drop_all [OF inv])
       (use False in \<open>simp_all add: stream_Close_def Let_def queued_entries_def split: option.splits\<close>)
qed

lemma admit_refused:
  assumes "refused h s e"
  shows "Handle_calls (admit h s e) = Handle_calls s"
    and "admitted (admit h s e) = admitted s @ [(next_id s, e)]"
    and "dropped (admit h s e) = insert (next_id s) (dropped s)"
    and "next_id (admit h s e) = Suc (next_id s)"
    and "queued_entries (admit h s e) p = queued_entries s p"
  using assms
  by (auto simp: refused_def admit_def drop_event_def Let_def queued_entries_def
      split: option.splits)

lemma admit_accepted:
  assumes "\<not> refused h s e"
  defines "c \<equiv> (if Property (GetType h e) = PeriodicSignal
                  then same_signal h (GetType h e) else (\<lambda>x. False))"
  shows "Handle_calls (admit h s e) = Handle_calls s"
    and "admitted (admit h s e) = admitted s @ [(next_id s, e)]"
    and "dropped (admit h s e) = dropped s \<union> fst ` set (filter c (queued_entries s (Path h e)))"
    and "next_id (admit h s e) = Suc (next_id s)"
    and "queued_entries (admit h s e) (Path h e) =
           filter (\<lambda>x. \<not> c x) (queued_entries s (Path h e)) @ [(next_id s, e)]"
    and "p \<noteq> Path h e \<Longrightarrow> queued_entries (admit h s e) p = queued_entries s p"
  using assms(1) unfolding c_def
  by (auto simp: refused_def admit_def drop_event_def enqueue_def coalesce_def Let_def
      queued_entries_def split: option.splits)

lemma inv_admit: "stream_inv h s \<Longrightarrow> stream_inv h (admit h s e)"
proof (cases "refused h s e")
  case True
  assume "stream_inv h s"
  then show ?thesis
    by (rule inv_drop_new) (simp_all add: admit_refused [OF True])
next
  case False
  note a = admit_accepted [OF False]
  assume "stream_inv h s"
  then show ?thesis
    by (rule inv_enqueue [OF _ a(1) a(2) a(3) a(4) a(5) a(6)])
qed

lemma inv_step: "stream_inv h s \<Longrightarrow> stream_inv h (step h s a)"
proof (cases a)
  case (Act_AddPath w p d st)
  assume "stream_inv h s"
  then show ?thesis
    using Act_AddPath inv_AddPath [of h s w p d st] by (simp split: sum.splits)
next
  case (Act_RemovePath p)
  assume "stream_inv h s"
  then show ?thesis
    using Act_RemovePath inv_RemovePath [of h s p] by (simp split: sum.splits)
qed (simp_all add: inv_Start inv_Close inv_SetAreaSettings inv_admit inv_wake inv_dispatch
      inv_migrate inv_pause_path inv_resume_path)

lemma inv_run: "stream_inv h s \<Longrightarrow> stream_inv h (run h s acts)"
  by (induction acts arbitrary: s) (simp_all add: inv_step)

lemma events_entries:
  "handled_events s p = map snd (handled_entries s p)"
  "returned_events s p = map snd (returned_entries s p)"
  by (simp_all add: handled_events_def handled_entries_def returned_events_def
      returned_entries_def map_concat comp_def)

lemma no_panic_returned:
  "list_all (\<lambda>c. snd (snd (snd c)) \<noteq> Panics) (Handle_calls s) \<Longrightarrow>
   returned_entries s p = handled_entries s p"
proof -
  assume "list_all (\<lambda>c. snd (snd (snd c)) \<noteq> Panics) (Handle_calls s)"
  then have "filter (\<lambda>c. fst c = p \<and> snd (snd (snd c)) \<noteq> Panics) (Handle_calls s) =
      filter (\<lambda>c. fst c = p) (Handle_calls s)"
    by (intro filter_cong refl) (simp add: list_all_iff)
  then show ?thesis by (simp add: returned_entries_def handled_entries_def)
qed

text \<open>
  C1, as stated, fails in an execution in which a call of \<open>Handle\<close> panics: the
  worker drops the batch that the call received (section 7), so the events passed to
  \<open>Handle\<close> for the path, followed by its queue, hold an event that is dropped.
\<close>

theorem per_path_order_counterexample:
  "handled_events (run example_handler
      (newDynamicStreamImpl 4 example_handler NewOption) example_panic_actions) 1
     = [(1, 0, 10), (1, 2, 11)] \<and>
   queued_events (run example_handler
      (newDynamicStreamImpl 4 example_handler NewOption) example_panic_actions) 1
     = [(1, 0, 12)] \<and>
   undropped_events example_handler (run example_handler
      (newDynamicStreamImpl 4 example_handler NewOption) example_panic_actions) 1
     = [(1, 2, 11), (1, 0, 12)] \<and>
   handled_events (run example_handler
      (newDynamicStreamImpl 4 example_handler NewOption) example_panic_actions) 1 @
   queued_events (run example_handler
      (newDynamicStreamImpl 4 example_handler NewOption) example_panic_actions) 1
     \<noteq> undropped_events example_handler (run example_handler
      (newDynamicStreamImpl 4 example_handler NewOption) example_panic_actions) 1"
  by (simp add: example_handler_def example_panic_actions_def newDynamicStreamImpl_def
      NewOption_def Option_fix_def stream_Start_def AddPath_def admit_def drop_event_def
      enqueue_def coalesce_def same_signal_def dispatch_def next_batch_def migrate_def
      handled_events_def queued_events_def queued_entries_def undropped_events_def
      undropped_entries_def event_size_def Let_def
      BatchableData_def PeriodicSignal_def NonBatchable_def)

text \<open>
  C1, amended. In every execution of a stream, for every path \<open>p\<close>: the events passed to
  the calls of \<open>Handle\<close> for \<open>p\<close> that returned, over these calls in their order, followed
  by the events still in the queue of \<open>p\<close>, are the events of \<open>p\<close> taken from the ingress
  channel and not dropped, in the order of their admission; they are all handled once
  the queue is empty. The events passed to all the calls of \<open>Handle\<close> for \<open>p\<close>, the
  panicking ones too, followed by the queue, are the events of \<open>p\<close> not dropped before a
  call of \<open>Handle\<close> received them, in the order of their admission: within a path the
  delivery is strictly first in, first out, the reassignment of a path to another worker
  being one of the steps. When no call of \<open>Handle\<close> has panicked, the events passed to
  \<open>Handle\<close> followed by the queue are the events of \<open>p\<close> not dropped.
\<close>

theorem per_path_order:
  "returned_events (run h (newDynamicStreamImpl n h option) acts) p @
     queued_events (run h (newDynamicStreamImpl n h option) acts) p
   = undropped_events h (run h (newDynamicStreamImpl n h option) acts) p \<and>
   handled_events (run h (newDynamicStreamImpl n h option) acts) p @
     queued_events (run h (newDynamicStreamImpl n h option) acts) p
   = reached_events h (run h (newDynamicStreamImpl n h option) acts) p \<and>
   (queued_events (run h (newDynamicStreamImpl n h option) acts) p = [] \<longrightarrow>
      returned_events (run h (newDynamicStreamImpl n h option) acts) p
      = undropped_events h (run h (newDynamicStreamImpl n h option) acts) p) \<and>
   (list_all (\<lambda>c. snd (snd (snd c)) \<noteq> Panics)
      (Handle_calls (run h (newDynamicStreamImpl n h option) acts)) \<longrightarrow>
      handled_events (run h (newDynamicStreamImpl n h option) acts) p @
        queued_events (run h (newDynamicStreamImpl n h option) acts) p
      = undropped_events h (run h (newDynamicStreamImpl n h option) acts) p)"
proof -
  define s where "s = run h (newDynamicStreamImpl n h option) acts"
  have inv: "stream_inv h s"
    unfolding s_def by (rule inv_run [OF inv_init])
  then have "returned_entries s p @ queued_entries s p = undropped_entries h s p"
    by (simp add: stream_inv_def order_inv_def undropped_entries_def)
  then have r: "returned_events s p @ queued_events s p = undropped_events h s p"
    by (simp add: events_entries queued_events_def undropped_events_def flip: map_append)
  from inv have "handled_entries s p @ queued_entries s p = reached_entries h s p"
    by (simp add: stream_inv_def order_inv_def reached_entries_def)
  then have a: "handled_events s p @ queued_events s p = reached_events h s p"
    by (simp add: events_entries queued_events_def reached_events_def flip: map_append)
  have np: "handled_events s p @ queued_events s p = undropped_events h s p"
    if "list_all (\<lambda>c. snd (snd (snd c)) \<noteq> Panics) (Handle_calls s)"
    using r no_panic_returned [OF that, of p] by (simp add: events_entries)
  show ?thesis
    using r a np unfolding s_def by auto
qed

theorem per_path_order_witness:
  "returned_events (run example_handler
      (newDynamicStreamImpl 4 example_handler NewOption) example_panic_actions) 1
     = [(1, 2, 11)] \<and>
   queued_events (run example_handler
      (newDynamicStreamImpl 4 example_handler NewOption) example_panic_actions) 1
     = [(1, 0, 12)] \<and>
   undropped_events example_handler (run example_handler
      (newDynamicStreamImpl 4 example_handler NewOption) example_panic_actions) 1
     = [(1, 2, 11), (1, 0, 12)] \<and>
   handled_events (run example_handler
      (newDynamicStreamImpl 4 example_handler NewOption) example_panic_actions) 1
     = [(1, 0, 10), (1, 2, 11)] \<and>
   reached_events example_handler (run example_handler
      (newDynamicStreamImpl 4 example_handler NewOption) example_panic_actions) 1
     = [(1, 0, 10), (1, 2, 11), (1, 0, 12)] \<and>
   list_all (\<lambda>c. snd (snd (snd c)) \<noteq> Panics)
     (Handle_calls (run example_handler
        (newDynamicStreamImpl 4 example_handler (NewOption\<lparr>EnableMemoryControl := True\<rparr>))
        example_actions)) \<and>
   handled_events (run example_handler
      (newDynamicStreamImpl 4 example_handler (NewOption\<lparr>EnableMemoryControl := True\<rparr>))
      example_actions) 1
     = [(1, 0, 10), (1, 1, 14)] \<and>
   queued_events (run example_handler
      (newDynamicStreamImpl 4 example_handler (NewOption\<lparr>EnableMemoryControl := True\<rparr>))
      example_actions) 1
     = [] \<and>
   undropped_events example_handler (run example_handler
      (newDynamicStreamImpl 4 example_handler (NewOption\<lparr>EnableMemoryControl := True\<rparr>))
      example_actions) 1
     = [(1, 0, 10), (1, 1, 14)]"
  using per_path_order [of example_handler 4 NewOption example_panic_actions 1]
    per_path_order [of example_handler 4 "NewOption\<lparr>EnableMemoryControl := True\<rparr>"
      example_actions 1]
  by (simp add: example_handler_def example_actions_def example_panic_actions_def
      newDynamicStreamImpl_def NewOption_def
      Option_fix_def AreaSettings_fix_def NewAreaSettings_def DefaultMaxPendingSize_def
      DefaultFeedbackInterval_def Millisecond_def
      stream_Start_def AddPath_def admit_def drop_event_def enqueue_def
      coalesce_def same_signal_def dispatch_def next_batch_def migrate_def pause_path_def
      handled_events_def returned_events_def queued_events_def queued_entries_def
      undropped_events_def undropped_entries_def reached_events_def reached_entries_def
      panicked_entries_def event_size_def Let_def
      BatchableData_def PeriodicSignal_def NonBatchable_def)

lemma feedback_step:
  assumes "\<not> EnableMemoryControl (stream_option s)" and "feedback_sent s = []"
  shows "\<not> EnableMemoryControl (stream_option (step h s a)) \<and> feedback_sent (step h s a) = []"
proof (cases a)
  case (Act_In e)
  then show ?thesis
    using assms
    by (auto simp: admit_def drop_event_def enqueue_def coalesce_def Let_def split: option.splits)
next
  case (Act_Handle w p result)
  then show ?thesis
    using assms
    by (auto simp: dispatch_def Let_def split: option.splits Handle_result.splits)
qed (use assms in \<open>auto simp: stream_Start_def stream_Close_def AddPath_def RemovePath_def
      SetAreaSettings_def wake_def migrate_def pause_path_def resume_path_def Let_def
      split: option.splits if_splits\<close>)

lemma feedback_run:
  "\<not> EnableMemoryControl (stream_option s) \<Longrightarrow> feedback_sent s = [] \<Longrightarrow>
   \<not> EnableMemoryControl (stream_option (run h s acts)) \<and> feedback_sent (run h s acts) = []"
proof (induction acts arbitrary: s)
  case Nil
  then show ?case by simp
next
  case (Cons a acts)
  from feedback_step [OF Cons.prems, of h a] Cons.IH [of "step h s a"] show ?case by simp
qed

text \<open>
  C2. For a stream built with \<open>EnableMemoryControl = false\<close>, at every point of every
  execution \<open>Feedback()\<close> is the nil channel and no feedback record has been sent.
\<close>

theorem no_feedback_without_memory_control:
  assumes "\<not> EnableMemoryControl option"
  shows "Feedback_channel (run h (newDynamicStreamImpl n h option) acts) = None \<and>
         feedback_sent (run h (newDynamicStreamImpl n h option) acts) = []"
proof -
  have "\<not> EnableMemoryControl (stream_option (newDynamicStreamImpl n h option))"
    using assms by (simp add: newDynamicStreamImpl_def Option_fix_def Let_def)
  moreover have "feedback_sent (newDynamicStreamImpl n h option) = []"
    by (simp add: newDynamicStreamImpl_def)
  ultimately show ?thesis
    using feedback_run [of "newDynamicStreamImpl n h option" h acts]
    by (simp add: Feedback_channel_def)
qed

theorem no_feedback_without_memory_control_witness:
  "\<not> EnableMemoryControl NewOption \<and>
   Feedback_channel (run example_handler
      (newDynamicStreamImpl 4 example_handler NewOption) example_actions) = None \<and>
   feedback_sent (run example_handler
      (newDynamicStreamImpl 4 example_handler NewOption) example_actions) = [] \<and>
   Feedback_channel (run example_handler
      (newDynamicStreamImpl 4 example_handler (NewOption\<lparr>EnableMemoryControl := True\<rparr>))
      example_actions)
     = Some [\<lparr>Feedback_Area = 0, Feedback_Path = 1, Feedback_Dest = ''d'',
               Feedback_Pause = True\<rparr>,
             \<lparr>Feedback_Area = 0, Feedback_Path = 1, Feedback_Dest = ''d'',
               Feedback_Pause = True\<rparr>,
             \<lparr>Feedback_Area = 0, Feedback_Path = 1, Feedback_Dest = ''d'',
               Feedback_Pause = True\<rparr>]"
  using no_feedback_without_memory_control [of NewOption example_handler 4 example_actions]
  by (simp add: example_handler_def example_actions_def newDynamicStreamImpl_def NewOption_def
      Option_fix_def AreaSettings_fix_def NewAreaSettings_def DefaultMaxPendingSize_def
      DefaultFeedbackInterval_def Millisecond_def Feedback_channel_def
      stream_Start_def AddPath_def admit_def drop_event_def enqueue_def
      coalesce_def same_signal_def dispatch_def next_batch_def migrate_def pause_path_def
      event_size_def Let_def BatchableData_def PeriodicSignal_def NonBatchable_def)

end
